theory Spec2Isabelle
  imports Complex_Main
begin

text \<open>
  The function \<open>posterior\<close> of \<open>js/prevalence.js\<close> computes the posterior density
  of a prevalence on a grid. It first draws \<open>N\<close> pairs \<open>(u, v)\<close> of false- and
  true-positive rates by rejection sampling and computes a Jacobian factor for each; it
  then sums, for each of the \<open>M + 1\<close> grid values, a beta density over the samples
  with compensated summation, and divides the array by its mean. This theory embeds the
  function, with the statistics library and the rounding of the arithmetic as
  parameters, and proves properties of it.
\<close>

section \<open>JavaScript numbers\<close>

text \<open>
  The program computes with JavaScript numbers. A number is modelled as a finite real,
  one of the two infinities, or NaN. The result of an operation on finite operands is the
  exact real result passed through a rounding function \<open>rnd\<close>, which is a parameter of
  every definition below: \<open>Fin\<close> itself is exact arithmetic, and any other choice may
  round, overflow to an infinity or underflow to zero. The special cases (an operand that
  is NaN or infinite, a zero divisor) follow IEEE 754. The sign of zero is not tracked:
  a quotient \<open>x / 0\<close> with \<open>x\<close> finite and non-zero is the infinity with the sign of
  \<open>x\<close>.
\<close>

datatype jsnum = Fin real | PInf | NInf | NaN

type_synonym rounding = "real \<Rightarrow> jsnum"

fun js_add :: "rounding \<Rightarrow> jsnum \<Rightarrow> jsnum \<Rightarrow> jsnum" where
  "js_add rnd (Fin a) (Fin b) = rnd (a + b)"
| "js_add rnd NaN y = NaN"
| "js_add rnd x NaN = NaN"
| "js_add rnd PInf NInf = NaN"
| "js_add rnd NInf PInf = NaN"
| "js_add rnd PInf y = PInf"
| "js_add rnd x PInf = PInf"
| "js_add rnd NInf y = NInf"
| "js_add rnd x NInf = NInf"

fun js_sub :: "rounding \<Rightarrow> jsnum \<Rightarrow> jsnum \<Rightarrow> jsnum" where
  "js_sub rnd (Fin a) (Fin b) = rnd (a - b)"
| "js_sub rnd NaN y = NaN"
| "js_sub rnd x NaN = NaN"
| "js_sub rnd PInf PInf = NaN"
| "js_sub rnd NInf NInf = NaN"
| "js_sub rnd PInf y = PInf"
| "js_sub rnd x NInf = PInf"
| "js_sub rnd NInf y = NInf"
| "js_sub rnd x PInf = NInf"

fun js_mul :: "rounding \<Rightarrow> jsnum \<Rightarrow> jsnum \<Rightarrow> jsnum" where
  "js_mul rnd (Fin a) (Fin b) = rnd (a * b)"
| "js_mul rnd NaN y = NaN"
| "js_mul rnd x NaN = NaN"
| "js_mul rnd PInf (Fin b) = (if b = 0 then NaN else if 0 < b then PInf else NInf)"
| "js_mul rnd NInf (Fin b) = (if b = 0 then NaN else if 0 < b then NInf else PInf)"
| "js_mul rnd (Fin a) PInf = (if a = 0 then NaN else if 0 < a then PInf else NInf)"
| "js_mul rnd (Fin a) NInf = (if a = 0 then NaN else if 0 < a then NInf else PInf)"
| "js_mul rnd PInf PInf = PInf"
| "js_mul rnd NInf NInf = PInf"
| "js_mul rnd PInf NInf = NInf"
| "js_mul rnd NInf PInf = NInf"

fun js_div :: "rounding \<Rightarrow> jsnum \<Rightarrow> jsnum \<Rightarrow> jsnum" where
  "js_div rnd (Fin a) (Fin b) =
     (if b = 0 then (if a = 0 then NaN else if 0 < a then PInf else NInf)
      else rnd (a / b))"
| "js_div rnd NaN y = NaN"
| "js_div rnd x NaN = NaN"
| "js_div rnd (Fin a) PInf = Fin 0"
| "js_div rnd (Fin a) NInf = Fin 0"
| "js_div rnd PInf (Fin b) = (if 0 \<le> b then PInf else NInf)"
| "js_div rnd NInf (Fin b) = (if 0 \<le> b then NInf else PInf)"
| "js_div rnd PInf y = NaN"
| "js_div rnd NInf y = NaN"

text \<open>The comparisons \<open>>=\<close> and \<open><\<close>: both are false as soon as an operand is NaN.\<close>

fun js_ge :: "jsnum \<Rightarrow> jsnum \<Rightarrow> bool" where
  "js_ge (Fin a) (Fin b) = (b \<le> a)"
| "js_ge NaN y = False"
| "js_ge x NaN = False"
| "js_ge PInf y = True"
| "js_ge x NInf = True"
| "js_ge x PInf = False"
| "js_ge NInf y = False"

fun js_lt :: "jsnum \<Rightarrow> jsnum \<Rightarrow> bool" where
  "js_lt (Fin a) (Fin b) = (a < b)"
| "js_lt NaN y = False"
| "js_lt x NaN = False"
| "js_lt PInf y = False"
| "js_lt x NInf = False"
| "js_lt x PInf = True"
| "js_lt NInf y = True"

text \<open>A loop counter or an array length read as a number.\<close>

definition js_of_nat :: "nat \<Rightarrow> jsnum" where
  "js_of_nat i = Fin (real i)"

fun is_finite :: "jsnum \<Rightarrow> bool" where
  "is_finite (Fin a) = True"
| "is_finite x = False"

subsection \<open>The standard model of rounding\<close>

text \<open>
  Two properties of a rounding function. In the standard model of floating-point
  arithmetic with unit roundoff \<open>eps\<close>, the result of every operation is a real
  whose relative error is at most \<open>eps\<close>: nothing overflows or underflows. A
  rounding is monotone when it keeps 1 and never reverses the order of two results.
  Rounding to nearest has both properties for doubles away from overflow and underflow,
  with \<open>eps = 2^-53\<close>; exact arithmetic has them with \<open>eps = 0\<close>.
\<close>

definition rounds_within :: "real \<Rightarrow> rounding \<Rightarrow> bool" where
  "rounds_within eps rnd \<longleftrightarrow> (\<forall>x. \<exists>y. rnd x = Fin y \<and> \<bar>y - x\<bar> \<le> eps * \<bar>x\<bar>)"

definition monotone_rounding :: "rounding \<Rightarrow> bool" where
  "monotone_rounding rnd \<longleftrightarrow>
     rnd 1 = Fin 1 \<and> (\<forall>x y a b. x \<le> y \<and> rnd x = Fin a \<and> rnd y = Fin b \<longrightarrow> a \<le> b)"

section \<open>Arrays of numbers\<close>

text \<open>
  Reading an array past its end gives \<open>undefined\<close>, which is NaN in arithmetic; writing
  past its end extends the array, the skipped places being holes (NaN when read).
\<close>

definition js_index :: "jsnum list \<Rightarrow> nat \<Rightarrow> jsnum" where
  "js_index xs i = (if i < length xs then xs ! i else NaN)"

definition js_store :: "jsnum list \<Rightarrow> nat \<Rightarrow> jsnum \<Rightarrow> jsnum list" where
  "js_store xs i x =
     (if i < length xs then xs[i := x]
      else xs @ replicate (i - length xs) NaN @ [x])"

section \<open>The statistics library and the request\<close>

text \<open>
  The three functions of jStat that \<open>posterior\<close> calls are parameters. The sampler reads
  and advances a random source, whose state \<open>'s\<close> is passed explicitly. The other two
  return what the program's arithmetic sees of their result (a \<open>false\<close> is 0 there).
\<close>

record 's jstat =
  beta_sample :: "jsnum \<Rightarrow> jsnum \<Rightarrow> 's \<Rightarrow> jsnum \<times> 's"
  ibeta :: "jsnum \<Rightarrow> jsnum \<Rightarrow> jsnum \<Rightarrow> jsnum"
  beta_pdf :: "jsnum \<Rightarrow> jsnum \<Rightarrow> jsnum \<Rightarrow> jsnum"

text \<open>
  The destructured argument of \<open>posterior\<close>, after the defaults \<open>N=1000\<close>, \<open>M=1000\<close>,
  \<open>a_u=1\<close>, \<open>b_u=1\<close>, \<open>a_v=1\<close>, \<open>b_v=1\<close> have been filled in. The fields carry the
  prefix \<open>req_\<close> so that \<open>n\<close>, \<open>k\<close>, \<open>N\<close> and \<open>M\<close> stay free for variables. The
  two loop bounds \<open>N\<close> and \<open>M\<close> are natural numbers.
\<close>

record request =
  req_n :: jsnum
  req_k :: jsnum
  req_n_u :: jsnum
  req_k_u :: jsnum
  req_n_v :: jsnum
  req_k_v :: jsnum
  req_N :: nat
  req_M :: nat
  req_a_u :: jsnum
  req_b_u :: jsnum
  req_a_v :: jsnum
  req_b_v :: jsnum

section \<open>The function \<open>posterior\<close>\<close>

subsection \<open>Sampling\<close>

text \<open>The body of the rejection loop: one draw of \<open>u\<close>, then one draw of \<open>v\<close>.\<close>

definition draw_pair :: "'s jstat \<Rightarrow> rounding \<Rightarrow> request \<Rightarrow> 's \<Rightarrow> jsnum \<times> jsnum \<times> 's" where
  "draw_pair J rnd q s =
     (case beta_sample J (js_add rnd (req_k_u q) (req_a_u q))
             (js_add rnd (js_sub rnd (req_n_u q) (req_k_u q)) (req_b_u q)) s of
        (u, s1) \<Rightarrow>
          (case beta_sample J (js_add rnd (req_k_v q) (req_a_v q))
                  (js_add rnd (js_sub rnd (req_n_v q) (req_k_v q)) (req_b_v q)) s1 of
             (v, s2) \<Rightarrow> (u, v, s2)))"

text \<open>
  \<open>while (u >= v) { ... }\<close>. The loop has no bound, so it is a partial function: the
  value \<open>None\<close> stands for a loop that never ends.
\<close>

partial_function (option) rejection ::
  "'s jstat \<Rightarrow> rounding \<Rightarrow> request \<Rightarrow> jsnum \<Rightarrow> jsnum \<Rightarrow> 's \<Rightarrow> (jsnum \<times> jsnum \<times> 's) option" where
  "rejection J rnd q u v s =
     (if js_ge u v then
        (case draw_pair J rnd q s of (u', v', s') \<Rightarrow> rejection J rnd q u' v' s')
      else Some (u, v, s))"

text \<open>The Jacobian factor of one retained sample.\<close>

definition jacobian :: "'s jstat \<Rightarrow> rounding \<Rightarrow> request \<Rightarrow> jsnum \<Rightarrow> jsnum \<Rightarrow> jsnum" where
  "jacobian J rnd q u v =
     (let Bu = ibeta J (js_sub rnd (Fin 1) u)
                 (js_add rnd (js_sub rnd (req_n q) (req_k q)) (Fin 1))
                 (js_add rnd (req_k q) (Fin 1));
          Bv = ibeta J (js_sub rnd (Fin 1) v)
                 (js_add rnd (js_sub rnd (req_n q) (req_k q)) (Fin 1))
                 (js_add rnd (req_k q) (Fin 1))
      in js_div rnd (js_sub rnd v u) (js_sub rnd Bu Bv))"

text \<open>\<open>for (let i=0; i<N; i++)\<close>, filling the three arrays \<open>us\<close>, \<open>vs\<close>, \<open>duvs\<close>.\<close>

function sampler_loop ::
  "'s jstat \<Rightarrow> rounding \<Rightarrow> request \<Rightarrow> nat \<Rightarrow> jsnum list \<Rightarrow> jsnum list \<Rightarrow> jsnum list \<Rightarrow> 's
     \<Rightarrow> (jsnum list \<times> jsnum list \<times> jsnum list \<times> 's) option" where
  "sampler_loop J rnd q i us vs duvs s =
     (if i < req_N q then
        (case rejection J rnd q (Fin 0) (Fin 0) s of
           None \<Rightarrow> None
         | Some (u, v, s') \<Rightarrow>
             sampler_loop J rnd q (i + 1) (us @ [u]) (vs @ [v])
               (duvs @ [jacobian J rnd q u v]) s')
      else Some (us, vs, duvs, s))"
  by pat_completeness auto
termination
  by (relation "measure (\<lambda>(J, rnd, q, i, us, vs, duvs, s). req_N q - i)") auto

subsection \<open>The grid\<close>

text \<open>The inner loop over the samples, for one value of \<open>theta\<close>.\<close>

function inner_loop ::
  "'s jstat \<Rightarrow> rounding \<Rightarrow> request \<Rightarrow> jsnum list \<Rightarrow> jsnum list \<Rightarrow> jsnum list \<Rightarrow> jsnum
     \<Rightarrow> nat \<Rightarrow> jsnum \<Rightarrow> jsnum \<Rightarrow> jsnum" where
  "inner_loop J rnd q us vs duvs theta i p_theta cp =
     (if i < req_N q then
        (let u = js_index us i;
             v = js_index vs i;
             duv = js_index duvs i;
             p = js_add rnd u (js_mul rnd theta (js_sub rnd v u));
             f = beta_pdf J p (js_add rnd (req_k q) (Fin 1))
                   (js_add rnd (js_sub rnd (req_n q) (req_k q)) (Fin 1));
             y = js_sub rnd (js_mul rnd f duv) cp;
             t = js_add rnd p_theta y
         in inner_loop J rnd q us vs duvs theta (i + 1) t
              (js_sub rnd (js_sub rnd t p_theta) y))
      else p_theta)"
  by pat_completeness auto
termination
  by (relation "measure (\<lambda>(J, rnd, q, us, vs, duvs, theta, i, p_theta, cp). req_N q - i)") auto

text \<open>The outer loop over the grid; it returns the raw array and the running \<open>total\<close> (here \<open>total_acc\<close>).\<close>

function grid_loop ::
  "'s jstat \<Rightarrow> rounding \<Rightarrow> request \<Rightarrow> jsnum list \<Rightarrow> jsnum list \<Rightarrow> jsnum list
     \<Rightarrow> nat \<Rightarrow> jsnum list \<Rightarrow> jsnum \<Rightarrow> jsnum \<Rightarrow> jsnum list \<times> jsnum" where
  "grid_loop J rnd q us vs duvs j pdf total_acc ct =
     (if j \<le> req_M q then
        (let theta = js_div rnd (js_of_nat j) (js_of_nat (req_M q));
             p_theta = inner_loop J rnd q us vs duvs theta 0 (Fin 0) (Fin 0);
             y = js_sub rnd p_theta ct;
             t = js_add rnd total_acc y
         in grid_loop J rnd q us vs duvs (j + 1) (pdf @ [p_theta]) t
              (js_sub rnd (js_sub rnd t total_acc) y))
      else (pdf, total_acc))"
  by pat_completeness auto
termination
  by (relation "measure (\<lambda>(J, rnd, q, us, vs, duvs, j, pdf, total_acc, ct). Suc (req_M q) - j)") auto

subsection \<open>Normalisation\<close>

function normalize_loop :: "rounding \<Rightarrow> request \<Rightarrow> jsnum \<Rightarrow> nat \<Rightarrow> jsnum list \<Rightarrow> jsnum list" where
  "normalize_loop rnd q total_acc j pdf =
     (if j \<le> req_M q then
        normalize_loop rnd q total_acc (j + 1) (js_store pdf j (js_div rnd (js_index pdf j) total_acc))
      else pdf)"
  by pat_completeness auto
termination
  by (relation "measure (\<lambda>(rnd, q, total_acc, j, pdf). Suc (req_M q) - j)") auto

definition normalization :: "rounding \<Rightarrow> request \<Rightarrow> jsnum list \<times> jsnum \<Rightarrow> jsnum list" where
  "normalization rnd q g =
     (case g of (pdf, total_acc) \<Rightarrow>
        normalize_loop rnd q (js_div rnd total_acc (js_of_nat (length pdf))) 0 pdf)"

subsection \<open>The whole function\<close>

text \<open>
  The result is \<open>None\<close> when a rejection loop never ends, and otherwise the returned
  array together with the state in which the random source is left.
\<close>

definition posterior :: "'s jstat \<Rightarrow> rounding \<Rightarrow> request \<Rightarrow> 's \<Rightarrow> (jsnum list \<times> 's) option" where
  "posterior J rnd q s =
     (case sampler_loop J rnd q 0 [] [] [] s of
        None \<Rightarrow> None
      | Some (us, vs, duvs, s') \<Rightarrow>
          Some (normalization rnd q (grid_loop J rnd q us vs duvs 0 [] (Fin 0) (Fin 0)), s'))"

declare sampler_loop.simps [simp del]
declare inner_loop.simps [simp del]
declare grid_loop.simps [simp del]
declare normalize_loop.simps [simp del]

section \<open>The computation in the words of the specification\<close>

text \<open>
  The definitions of this section, with names that begin with \<open>spec_\<close>, follow the
  specification; the theorems compare them with the loops of the program.
  A compensated accumulator is a pair of a running value and a compensation term; adding
  \<open>x\<close> subtracts the compensation from \<open>x\<close>, adds the result to the value and
  keeps the rounding error of that addition as the new compensation. The compensated sum
  of a list starts from the pair of two zeros.
\<close>

definition spec_comp_add :: "rounding \<Rightarrow> jsnum \<times> jsnum \<Rightarrow> jsnum \<Rightarrow> jsnum \<times> jsnum" where
  "spec_comp_add rnd acc x =
     (case acc of (sum_, c) \<Rightarrow>
        (let y = js_sub rnd x c; t = js_add rnd sum_ y
         in (t, js_sub rnd (js_sub rnd t sum_) y)))"

definition spec_comp_sum :: "rounding \<Rightarrow> jsnum list \<Rightarrow> jsnum" where
  "spec_comp_sum rnd xs = fst (foldl (spec_comp_add rnd) (Fin 0, Fin 0) xs)"

definition spec_term ::
  "'s jstat \<Rightarrow> rounding \<Rightarrow> request \<Rightarrow> jsnum list \<Rightarrow> jsnum list \<Rightarrow> jsnum list \<Rightarrow> jsnum \<Rightarrow> nat \<Rightarrow> jsnum" where
  "spec_term J rnd q us vs duvs theta i =
     js_mul rnd
       (beta_pdf J
          (js_add rnd (js_index us i)
             (js_mul rnd theta (js_sub rnd (js_index vs i) (js_index us i))))
          (js_add rnd (req_k q) (Fin 1))
          (js_add rnd (js_sub rnd (req_n q) (req_k q)) (Fin 1)))
       (js_index duvs i)"

definition spec_raw_density ::
  "'s jstat \<Rightarrow> rounding \<Rightarrow> request \<Rightarrow> jsnum list \<Rightarrow> jsnum list \<Rightarrow> jsnum list \<Rightarrow> nat \<Rightarrow> jsnum" where
  "spec_raw_density J rnd q us vs duvs j =
     spec_comp_sum rnd
       (map (spec_term J rnd q us vs duvs (js_div rnd (js_of_nat j) (js_of_nat (req_M q))))
          [0..<req_N q])"

text \<open>The plain sum of an array, by which the normalisation is measured.\<close>

definition js_sum :: "rounding \<Rightarrow> jsnum list \<Rightarrow> jsnum" where
  "js_sum rnd xs = foldl (js_add rnd) (Fin 0) xs"

section \<open>The stream of drawn pairs\<close>

text \<open>
  The rejection loops draw their pairs one after the other from the same random source.
  From a state \<open>s\<close> of the source, \<open>pair_at s k\<close> is the pair that the \<open>k\<close>-th
  execution of the loop body draws (with the state it leaves), whether the loop that
  draws it belongs to the first sample or to a later one. A pair ends the loop when the
  test \<open>u >= v\<close> is false; it is ordered when \<open>u < v\<close>. \<open>count_upto P m\<close> counts
  the indices below \<open>m\<close> that satisfy \<open>P\<close>. A draw respects the sampler's interface
  when it is a real of the unit interval.
\<close>

definition next_state :: "'s jstat \<Rightarrow> rounding \<Rightarrow> request \<Rightarrow> 's \<Rightarrow> 's" where
  "next_state J rnd q s = snd (snd (draw_pair J rnd q s))"

definition pair_at :: "'s jstat \<Rightarrow> rounding \<Rightarrow> request \<Rightarrow> 's \<Rightarrow> nat \<Rightarrow> jsnum \<times> jsnum \<times> 's" where
  "pair_at J rnd q s k = draw_pair J rnd q ((next_state J rnd q ^^ k) s)"

definition exits :: "jsnum \<times> jsnum \<times> 's \<Rightarrow> bool" where
  "exits p = (case p of (u, v, s) \<Rightarrow> \<not> js_ge u v)"

definition ordered :: "jsnum \<times> jsnum \<times> 's \<Rightarrow> bool" where
  "ordered p = (case p of (u, v, s) \<Rightarrow> js_lt u v)"

definition count_upto :: "(nat \<Rightarrow> bool) \<Rightarrow> nat \<Rightarrow> nat" where
  "count_upto P m = length (filter P [0..<m])"

definition first_exit :: "'s jstat \<Rightarrow> rounding \<Rightarrow> request \<Rightarrow> 's \<Rightarrow> nat \<Rightarrow> bool" where
  "first_exit J rnd q s k \<longleftrightarrow>
     exits (pair_at J rnd q s k) \<and> (\<forall>i<k. \<not> exits (pair_at J rnd q s i))"

definition unit_interval :: "jsnum \<Rightarrow> bool" where
  "unit_interval x = (case x of Fin r \<Rightarrow> 0 \<le> r \<and> r \<le> 1 | _ \<Rightarrow> False)"

section \<open>The interface of the library, and the direct form of the Jacobian\<close>

text \<open>
  The Jacobian factor in the direct form, with the incomplete beta function evaluated at
  \<open>u\<close> and \<open>v\<close> themselves and the shapes in their natural order, in exact
  arithmetic.
\<close>

definition spec_direct_jacobian :: "'s jstat \<Rightarrow> request \<Rightarrow> jsnum \<Rightarrow> jsnum \<Rightarrow> jsnum" where
  "spec_direct_jacobian J q u v =
     js_div Fin (js_sub Fin v u)
       (js_sub Fin
          (ibeta J v (js_add Fin (req_k q) (Fin 1))
             (js_add Fin (js_sub Fin (req_n q) (req_k q)) (Fin 1)))
          (ibeta J u (js_add Fin (req_k q) (Fin 1))
             (js_add Fin (js_sub Fin (req_n q) (req_k q)) (Fin 1))))"

text \<open>
  The properties of the library's functions that the claims rely on: the symmetry
  \<open>I_t(a,b) = 1 - I_{1-t}(b,a)\<close> on the unit interval; an incomplete beta function
  that is finite and does not decrease on the unit interval; a density that is never
  negative (it may be NaN or infinite).
\<close>

definition ibeta_symmetric :: "'s jstat \<Rightarrow> jsnum \<Rightarrow> jsnum \<Rightarrow> bool" where
  "ibeta_symmetric J a b \<longleftrightarrow>
     (\<forall>t. 0 \<le> t \<and> t \<le> 1 \<longrightarrow>
        ibeta J (Fin t) a b = js_sub Fin (Fin 1) (ibeta J (Fin (1 - t)) b a))"

definition ibeta_monotone :: "'s jstat \<Rightarrow> jsnum \<Rightarrow> jsnum \<Rightarrow> bool" where
  "ibeta_monotone J a b \<longleftrightarrow>
     (\<forall>x y. 0 \<le> x \<and> x \<le> y \<and> y \<le> 1 \<longrightarrow>
        (\<exists>bx by. ibeta J (Fin x) a b = Fin bx \<and> ibeta J (Fin y) a b = Fin by \<and> bx \<le> by))"

definition pdf_not_negative :: "'s jstat \<Rightarrow> bool" where
  "pdf_not_negative J \<longleftrightarrow> (\<forall>p a b. \<not> js_lt (beta_pdf J p a b) (Fin 0))"

text \<open>A number that is a non-negative real; a number that is a positive real or \<open>+Infinity\<close>.\<close>

definition nonneg :: "jsnum \<Rightarrow> bool" where
  "nonneg x = (case x of Fin r \<Rightarrow> 0 \<le> r | _ \<Rightarrow> False)"

definition positive_or_inf :: "jsnum \<Rightarrow> bool" where
  "positive_or_inf d = (case d of Fin r \<Rightarrow> 0 < r | PInf \<Rightarrow> True | _ \<Rightarrow> False)"

text \<open>
  Two random sources, whose states may be of different types, yield the same draws from
  states related by \<open>R\<close> when equal requests give equal values and leave related
  states. Two results of the sampling loop are the same when both loops run forever, or
  both return the same three arrays and leave related states.
\<close>

definition same_draws ::
  "('s \<Rightarrow> 't \<Rightarrow> bool) \<Rightarrow> 's jstat \<Rightarrow> 't jstat \<Rightarrow> bool" where
  "same_draws R J1 J2 \<longleftrightarrow>
     (\<forall>a b s1 s2. R s1 s2 \<longrightarrow>
        fst (beta_sample J1 a b s1) = fst (beta_sample J2 a b s2)
        \<and> R (snd (beta_sample J1 a b s1)) (snd (beta_sample J2 a b s2)))"

definition same_samples ::
  "('s \<Rightarrow> 't \<Rightarrow> bool) \<Rightarrow> (jsnum list \<times> jsnum list \<times> jsnum list \<times> 's) option
     \<Rightarrow> (jsnum list \<times> jsnum list \<times> jsnum list \<times> 't) option \<Rightarrow> bool" where
  "same_samples R x y =
     (case x of
        None \<Rightarrow> y = None
      | Some (us, vs, duvs, t1) \<Rightarrow>
          (case y of
             None \<Rightarrow> False
           | Some (us', vs', duvs', t2) \<Rightarrow> us = us' \<and> vs = vs' \<and> duvs = duvs' \<and> R t1 t2))"

section \<open>A small instance\<close>

text \<open>
  A random source that is a counter, whose draws repeat the cycle 3/4, 1/4, 1/4, 3/4: the
  first pair of each cycle is rejected and the second one is retained. The incomplete
  beta function and the density are the closed forms for the shapes (1,1), (2,1) and
  (1,2), the only shapes that the requests of this section use. Both test the argument
  against the support first, and the density answers 1 for the uniform shape (1,1) before
  it looks at the argument any further, as the library does.
\<close>

definition cyc_sample :: "jsnum \<Rightarrow> jsnum \<Rightarrow> nat \<Rightarrow> jsnum \<times> nat" where
  "cyc_sample a b c = (Fin (if c mod 4 = 0 \<or> c mod 4 = 3 then 3 / 4 else 1 / 4), c + 1)"

definition ex_ibeta :: "jsnum \<Rightarrow> jsnum \<Rightarrow> jsnum \<Rightarrow> jsnum" where
  "ex_ibeta x a b =
     (if js_lt x (Fin 0) \<or> js_lt (Fin 1) x then Fin 0
      else (case x of
              Fin t \<Rightarrow>
                (if a = Fin 2 \<and> b = Fin 1 then Fin (t * t)
                 else if a = Fin 1 \<and> b = Fin 2 then Fin (1 - (1 - t) * (1 - t))
                 else Fin t)
            | _ \<Rightarrow> NaN))"

definition ex_pdf :: "jsnum \<Rightarrow> jsnum \<Rightarrow> jsnum \<Rightarrow> jsnum" where
  "ex_pdf x a b =
     (if js_lt (Fin 1) x \<or> js_lt x (Fin 0) then Fin 0
      else if a = Fin 1 \<and> b = Fin 1 then Fin 1
      else (case x of
              Fin t \<Rightarrow>
                (if a = Fin 2 \<and> b = Fin 1 then Fin (2 * t)
                 else if a = Fin 1 \<and> b = Fin 2 then Fin (2 * (1 - t))
                 else Fin 1)
            | _ \<Rightarrow> NaN))"

definition ex_jstat :: "nat jstat" where
  "ex_jstat = \<lparr>beta_sample = cyc_sample, ibeta = ex_ibeta, beta_pdf = ex_pdf\<rparr>"

text \<open>One subject tested, none positive: the density has shape (1,2).\<close>

definition ex_request :: request where
  "ex_request = \<lparr>req_n = Fin 1, req_k = Fin 0, req_n_u = Fin 10, req_k_u = Fin 1,
     req_n_v = Fin 10, req_k_v = Fin 9, req_N = 2, req_M = 2,
     req_a_u = Fin 1, req_b_u = Fin 1, req_a_v = Fin 1, req_b_v = Fin 1\<rparr>"

text \<open>The same request with no sample, with no sample and two grid points, with a
  grid of size zero, and the uniform shape (no subject tested) with a grid of size zero.\<close>

definition ex_request_N0 :: request where
  "ex_request_N0 = ex_request\<lparr>req_N := 0\<rparr>"

definition ex_request_N0_M1 :: request where
  "ex_request_N0_M1 = ex_request\<lparr>req_N := 0, req_M := 1\<rparr>"

definition ex_request_M0 :: request where
  "ex_request_M0 = ex_request\<lparr>req_M := 0\<rparr>"

definition ex_request_uniform_M0 :: request where
  "ex_request_uniform_M0 = ex_request\<lparr>req_n := Fin 0, req_N := 1, req_M := 0\<rparr>"

text \<open>A random source whose every draw is 1/2: no pair is ever ordered.\<close>

definition const_sample :: "jsnum \<Rightarrow> jsnum \<Rightarrow> unit \<Rightarrow> jsnum \<times> unit" where
  "const_sample a b s = (Fin (1 / 2), s)"

definition stuck_jstat :: "unit jstat" where
  "stuck_jstat = \<lparr>beta_sample = const_sample, ibeta = ex_ibeta, beta_pdf = ex_pdf\<rparr>"

text \<open>The same cycle of draws from a source whose state is the position in the cycle.\<close>

definition mod4_sample :: "jsnum \<Rightarrow> jsnum \<Rightarrow> nat \<Rightarrow> jsnum \<times> nat" where
  "mod4_sample a b c = (Fin (if c = 0 \<or> c = 3 then 3 / 4 else 1 / 4), (c + 1) mod 4)"

definition mod4_jstat :: "nat jstat" where
  "mod4_jstat = \<lparr>beta_sample = mod4_sample, ibeta = ex_ibeta, beta_pdf = ex_pdf\<rparr>"

text \<open>
  Two roundings of the standard model with \<open>eps = 1/64\<close>. The first is exact up to
  4 in absolute value and returns every larger result too large by one part in 64; it is
  monotone. The second returns every positive result too large by one part in 64 and is
  exact on the others.
\<close>

definition ex_rnd :: rounding where
  "ex_rnd x = Fin (if \<bar>x\<bar> \<le> 4 then x else x * (65 / 64))"

definition up_rnd :: rounding where
  "up_rnd x = Fin (if 0 < x then x * (65 / 64) else x)"

text \<open>
  A family of libraries whose incomplete beta function carries an approximation error
  \<open>d\<close>, as a function that is evaluated in floating point by one expansion below a
  threshold and by another one above it does. For the shape (2,1), where the exact value
  is \<open>t * t\<close>, it is exact from \<open>t = 3/5\<close> on and too large by \<open>d\<close> below:
  its values lie in the unit interval, but it decreases across the threshold. The density
  is the exact one of the small instance. The member \<open>h\<close> of the family has the error
  \<open>d = h (38/15 - h)\<close>, which is less than \<open>3 h\<close>, and a random source that draws
  1/8, 3/8, 2/5, \<open>2/5 + h\<close> and then 2/5 for ever.
\<close>

definition approx_ibeta :: "real \<Rightarrow> jsnum \<Rightarrow> jsnum \<Rightarrow> jsnum \<Rightarrow> jsnum" where
  "approx_ibeta d x a b =
     (if js_lt x (Fin 0) \<or> js_lt (Fin 1) x then Fin 0
      else (case x of
              Fin t \<Rightarrow> (if t < 3 / 5 then Fin (t * t + d) else Fin (t * t))
            | _ \<Rightarrow> NaN))"

definition seq_sample :: "real \<Rightarrow> jsnum \<Rightarrow> jsnum \<Rightarrow> nat \<Rightarrow> jsnum \<times> nat" where
  "seq_sample h a b c =
     (Fin (if c = 0 then 1 / 8 else if c = 1 then 3 / 8 else if c = 3 then 2 / 5 + h else 2 / 5),
      c + 1)"

definition approx_jstat :: "real \<Rightarrow> nat jstat" where
  "approx_jstat h =
     \<lparr>beta_sample = seq_sample h, ibeta = approx_ibeta (h * (38 / 15 - h)), beta_pdf = ex_pdf\<rparr>"

section \<open>The loops as folds\<close>

lemma inner_loop_step:
  "i < req_N q \<Longrightarrow>
   inner_loop J rnd q us vs duvs theta i p_theta cp =
     (case spec_comp_add rnd (p_theta, cp) (spec_term J rnd q us vs duvs theta i) of
        (t, c) \<Rightarrow> inner_loop J rnd q us vs duvs theta (i + 1) t c)"
  by (subst inner_loop.simps) (simp add: spec_comp_add_def spec_term_def Let_def)

lemma inner_loop_exit:
  "\<not> i < req_N q \<Longrightarrow> inner_loop J rnd q us vs duvs theta i p_theta cp = p_theta"
  by (subst inner_loop.simps) simp

lemma inner_loop_foldl:
  "inner_loop J rnd q us vs duvs theta i p_theta cp =
     fst (foldl (spec_comp_add rnd) (p_theta, cp)
            (map (spec_term J rnd q us vs duvs theta) [i..<req_N q]))"
proof (induction "req_N q - i" arbitrary: i p_theta cp)
  case 0
  then show ?case by (simp add: inner_loop_exit)
next
  case (Suc d)
  then have lt: "i < req_N q" and d: "d = req_N q - (i + 1)"
    by simp_all
  have cons: "[i..<req_N q] = i # [i + 1..<req_N q]"
    using lt by (simp add: upt_conv_Cons)
  obtain t c where tc: "spec_comp_add rnd (p_theta, cp) (spec_term J rnd q us vs duvs theta i) = (t, c)"
    by (cases "spec_comp_add rnd (p_theta, cp) (spec_term J rnd q us vs duvs theta i)")
  show ?case
    using Suc.hyps(1) [OF d, of t c] by (simp add: inner_loop_step [OF lt] tc cons)
qed

lemma grid_loop_step:
  "j \<le> req_M q \<Longrightarrow>
   grid_loop J rnd q us vs duvs j pdf total_acc ct =
     (case spec_comp_add rnd (total_acc, ct) (spec_raw_density J rnd q us vs duvs j) of
        (t, c) \<Rightarrow>
          grid_loop J rnd q us vs duvs (j + 1) (pdf @ [spec_raw_density J rnd q us vs duvs j]) t c)"
  by (subst grid_loop.simps)
    (simp add: spec_comp_add_def spec_raw_density_def spec_comp_sum_def inner_loop_foldl Let_def)

lemma grid_loop_exit:
  "\<not> j \<le> req_M q \<Longrightarrow> grid_loop J rnd q us vs duvs j pdf total_acc ct = (pdf, total_acc)"
  by (subst grid_loop.simps) simp

lemma grid_loop_foldl:
  "grid_loop J rnd q us vs duvs j pdf total_acc ct =
     (pdf @ map (spec_raw_density J rnd q us vs duvs) [j..<Suc (req_M q)],
      fst (foldl (spec_comp_add rnd) (total_acc, ct)
             (map (spec_raw_density J rnd q us vs duvs) [j..<Suc (req_M q)])))"
proof (induction "Suc (req_M q) - j" arbitrary: j pdf total_acc ct)
  case 0
  then show ?case by (simp add: grid_loop_exit del: upt_Suc)
next
  case (Suc d)
  then have le: "j \<le> req_M q" and d: "d = Suc (req_M q) - (j + 1)"
    by simp_all
  have cons: "[j..<Suc (req_M q)] = j # [j + 1..<Suc (req_M q)]"
    using le by (simp add: upt_conv_Cons del: upt_Suc)
  obtain t c where tc: "spec_comp_add rnd (total_acc, ct) (spec_raw_density J rnd q us vs duvs j) = (t, c)"
    by (cases "spec_comp_add rnd (total_acc, ct) (spec_raw_density J rnd q us vs duvs j)")
  show ?case
    using Suc.hyps(1) [OF d, of "pdf @ [spec_raw_density J rnd q us vs duvs j]" t c]
    by (simp add: grid_loop_step [OF le] tc cons del: upt_Suc)
qed

lemma normalize_loop_map:
  "length pdf = req_M q + 1 \<Longrightarrow> j \<le> req_M q + 1 \<Longrightarrow>
   normalize_loop rnd q total_acc j pdf =
     take j pdf @ map (\<lambda>x. js_div rnd x total_acc) (drop j pdf)"
proof (induction rnd q total_acc j pdf rule: normalize_loop.induct)
  case (1 rnd q total_acc j pdf)
  show ?case
  proof (cases "j \<le> req_M q")
    case True
    then have lt: "j < length pdf"
      using "1.prems" by simp
    have st: "js_store pdf j (js_div rnd (js_index pdf j) total_acc)
                = pdf[j := js_div rnd (pdf ! j) total_acc]"
      using lt by (simp add: js_store_def js_index_def)
    have "normalize_loop rnd q total_acc j pdf =
            normalize_loop rnd q total_acc (j + 1) (pdf[j := js_div rnd (pdf ! j) total_acc])"
      using True by (subst normalize_loop.simps) (simp add: st)
    also have "\<dots> = take (j + 1) (pdf[j := js_div rnd (pdf ! j) total_acc])
                     @ map (\<lambda>x. js_div rnd x total_acc) (drop (j + 1) (pdf[j := js_div rnd (pdf ! j) total_acc]))"
      using "1.IH" [OF True] "1.prems" True by (simp add: st)
    also have "\<dots> = take j pdf @ map (\<lambda>x. js_div rnd x total_acc) (drop j pdf)"
      using lt by (simp add: take_Suc_conv_app_nth Cons_nth_drop_Suc [symmetric] upd_conv_take_nth_drop)
    finally show ?thesis .
  next
    case False
    then have "j = length pdf" using "1.prems" by simp
    then show ?thesis
      using False by (subst normalize_loop.simps) simp
  qed
qed

lemma is_finite_iff: "is_finite x \<longleftrightarrow> (\<exists>r. x = Fin r)"
  by (cases x) simp_all

lemma normalization_grid:
  "normalization rnd q (grid_loop J rnd q us vs duvs 0 [] (Fin 0) (Fin 0)) =
     map (\<lambda>x. js_div rnd x
                (js_div rnd (snd (grid_loop J rnd q us vs duvs 0 [] (Fin 0) (Fin 0)))
                   (js_of_nat (req_M q + 1))))
       (fst (grid_loop J rnd q us vs duvs 0 [] (Fin 0) (Fin 0)))"
proof -
  obtain pdf total_acc where g: "grid_loop J rnd q us vs duvs 0 [] (Fin 0) (Fin 0) = (pdf, total_acc)"
    by (cases "grid_loop J rnd q us vs duvs 0 [] (Fin 0) (Fin 0)")
  have len: "length pdf = req_M q + 1"
    using g by (auto simp add: grid_loop_foldl simp del: upt_Suc)
  show ?thesis
    using normalize_loop_map [OF len, of 0] by (simp add: g normalization_def len)
qed

lemma posterior_sampled:
  "sampler_loop J rnd q 0 [] [] [] s = Some (us, vs, duvs, s') \<Longrightarrow>
   posterior J rnd q s =
     Some (normalization rnd q (grid_loop J rnd q us vs duvs 0 [] (Fin 0) (Fin 0)), s')"
  by (simp add: posterior_def)

lemma posterior_None: "posterior J rnd q s = None \<longleftrightarrow> sampler_loop J rnd q 0 [] [] [] s = None"
  by (auto simp: posterior_def split: option.splits)

lemma length_normalization_grid:
  "length (normalization rnd q (grid_loop J rnd q us vs duvs 0 [] (Fin 0) (Fin 0))) = req_M q + 1"
  by (simp add: normalization_grid) (simp add: grid_loop_foldl del: upt_Suc)

section \<open>The rejection loop and the sampling loop\<close>

lemma pair_at_0: "pair_at J rnd q s 0 = draw_pair J rnd q s"
  by (simp add: pair_at_def)

lemma pair_at_Suc: "pair_at J rnd q s (Suc k) = pair_at J rnd q (next_state J rnd q s) k"
  by (simp add: pair_at_def funpow_swap1)

lemma pair_at_add:
  "pair_at J rnd q ((next_state J rnd q ^^ a) s) k = pair_at J rnd q s (k + a)"
  by (simp add: pair_at_def funpow_add)

lemma rejection_exit: "\<not> js_ge u v \<Longrightarrow> rejection J rnd q u v s = Some (u, v, s)"
  by (subst rejection.simps) simp

lemma rejection_again:
  "js_ge u v \<Longrightarrow> draw_pair J rnd q s = (u', v', s') \<Longrightarrow>
   rejection J rnd q u v s = rejection J rnd q u' v' s'"
  by (subst rejection.simps) simp

lemma rejection_first_exit:
  "js_ge u v \<Longrightarrow> exits (pair_at J rnd q s k) \<Longrightarrow>
   (\<forall>i<k. \<not> exits (pair_at J rnd q s i)) \<Longrightarrow>
   rejection J rnd q u v s = Some (pair_at J rnd q s k)"
proof (induction k arbitrary: u v s)
  case 0
  obtain u' v' s' where d: "draw_pair J rnd q s = (u', v', s')"
    by (cases "draw_pair J rnd q s")
  with 0 show ?case
    by (simp add: rejection_again [OF "0.prems"(1) d] pair_at_0 exits_def rejection_exit)
next
  case (Suc k)
  obtain u' v' s' where d: "draw_pair J rnd q s = (u', v', s')"
    by (cases "draw_pair J rnd q s")
  have s': "next_state J rnd q s = s'"
    by (simp add: next_state_def d)
  have ge: "js_ge u' v'"
    using Suc.prems(3) [rule_format, of 0] by (simp add: pair_at_0 d exits_def)
  have "rejection J rnd q u' v' s' = Some (pair_at J rnd q s' k)"
  proof (rule Suc.IH [OF ge])
    show "exits (pair_at J rnd q s' k)"
      using Suc.prems(2) by (simp add: pair_at_Suc s')
    show "\<forall>i<k. \<not> exits (pair_at J rnd q s' i)"
      using Suc.prems(3) by (auto simp: pair_at_Suc [symmetric] s' [symmetric])
  qed
  then show ?case
    by (simp add: rejection_again [OF Suc.prems(1) d] pair_at_Suc s')
qed

lemma first_exit_0:
  "draw_pair J rnd q s = (u', v', s') \<Longrightarrow> \<not> js_ge u' v' \<Longrightarrow> first_exit J rnd q s 0"
  by (simp add: first_exit_def pair_at_0 exits_def)

lemma first_exit_Suc:
  assumes "draw_pair J rnd q s = (u', v', s')" and "js_ge u' v'"
    and "first_exit J rnd q s' k"
  shows "first_exit J rnd q s (Suc k)"
proof -
  have s': "next_state J rnd q s = s'"
    by (simp add: next_state_def assms(1))
  have "\<not> exits (pair_at J rnd q s i)" if "i < Suc k" for i
  proof (cases i)
    case 0
    then show ?thesis using assms(1,2) by (simp add: pair_at_0 exits_def)
  next
    case (Suc i')
    then show ?thesis using assms(3) that by (simp add: pair_at_Suc s' first_exit_def)
  qed
  then show ?thesis
    using assms(3) by (simp add: first_exit_def pair_at_Suc s')
qed

lemma rejection_Some_D:
  assumes "rejection J rnd q u v s = Some r"
  shows "if js_ge u v then \<exists>k. first_exit J rnd q s k \<and> r = pair_at J rnd q s k
         else r = (u, v, s)"
proof (rule rejection.raw_induct
    [where P = "\<lambda>J rnd q u v s r.
       if js_ge u v then \<exists>k. first_exit J rnd q s k \<and> r = pair_at J rnd q s k
       else r = (u, v, s)", OF _ assms])
  fix rej :: "'s jstat \<Rightarrow> rounding \<Rightarrow> request \<Rightarrow> jsnum \<Rightarrow> jsnum \<Rightarrow> 's \<Rightarrow> (jsnum \<times> jsnum \<times> 's) option"
  fix J rnd q u v s r
  assume ih: "\<And>J rnd q u v s r. rej J rnd q u v s = Some r \<Longrightarrow>
      (if js_ge u v then \<exists>k. first_exit J rnd q s k \<and> r = pair_at J rnd q s k
       else r = (u, v, s))"
  assume body: "(if js_ge u v
      then case draw_pair J rnd q s of (u', v', s') \<Rightarrow> rej J rnd q u' v' s'
      else Some (u, v, s)) = Some r"
  show "if js_ge u v then \<exists>k. first_exit J rnd q s k \<and> r = pair_at J rnd q s k
        else r = (u, v, s)"
  proof (cases "js_ge u v")
    case False
    with body show ?thesis by auto
  next
    case True
    obtain u' v' s' where d: "draw_pair J rnd q s = (u', v', s')"
      by (cases "draw_pair J rnd q s")
    have s': "next_state J rnd q s = s'"
      by (simp add: next_state_def d)
    from body True d have call: "rej J rnd q u' v' s' = Some r"
      by simp
    show ?thesis
    proof (cases "js_ge u' v'")
      case False
      with ih [OF call] have "r = pair_at J rnd q s 0"
        by (simp add: pair_at_0 d)
      with first_exit_0 [OF d False] True show ?thesis
        by auto
    next
      case ge: True
      with ih [OF call] obtain k where k: "first_exit J rnd q s' k" "r = pair_at J rnd q s' k"
        by auto
      have "r = pair_at J rnd q s (Suc k)"
        by (simp add: k(2) pair_at_Suc s')
      with first_exit_Suc [OF d ge k(1)] True show ?thesis
        by auto
    qed
  qed
qed

lemma rejection_None_iff:
  "js_ge u v \<Longrightarrow>
   rejection J rnd q u v s = None \<longleftrightarrow> (\<forall>k. \<not> exits (pair_at J rnd q s k))"
proof
  assume ge: "js_ge u v" and none: "rejection J rnd q u v s = None"
  show "\<forall>k. \<not> exits (pair_at J rnd q s k)"
  proof (rule ccontr)
    assume "\<not> (\<forall>k. \<not> exits (pair_at J rnd q s k))"
    then have ex: "\<exists>k. exits (pair_at J rnd q s k)" by simp
    define k where "k = (LEAST k. exits (pair_at J rnd q s k))"
    have "exits (pair_at J rnd q s k)"
      unfolding k_def using ex by (rule LeastI_ex)
    moreover have "\<forall>i<k. \<not> exits (pair_at J rnd q s i)"
      unfolding k_def using not_less_Least by blast
    ultimately have "rejection J rnd q u v s = Some (pair_at J rnd q s k)"
      by (rule rejection_first_exit [OF ge])
    with none show False by simp
  qed
next
  assume ge: "js_ge u v" and never: "\<forall>k. \<not> exits (pair_at J rnd q s k)"
  show "rejection J rnd q u v s = None"
  proof (cases "rejection J rnd q u v s")
    case None
    then show ?thesis .
  next
    case (Some r)
    from rejection_Some_D [OF Some] ge never show ?thesis
      by (auto simp: first_exit_def)
  qed
qed

lemma count_upto_0: "count_upto P 0 = 0"
  by (simp add: count_upto_def)

lemma count_upto_Suc: "count_upto P (Suc m) = count_upto P m + (if P m then 1 else 0)"
  by (simp add: count_upto_def)

lemma count_upto_none: "(\<forall>i<k. \<not> P i) \<Longrightarrow> count_upto P k = 0"
  by (simp add: count_upto_def)

lemma count_upto_first:
  "P k \<Longrightarrow> (\<forall>i<k. \<not> P i) \<Longrightarrow> count_upto P (Suc k) = 1"
  by (simp add: count_upto_Suc count_upto_none)

lemma count_upto_pos: "0 < count_upto P m \<Longrightarrow> \<exists>k<m. P k"
  by (induction m) (auto simp: count_upto_Suc count_upto_0 less_Suc_eq split: if_splits)

lemma count_upto_add:
  "count_upto P (a + m) = count_upto P a + count_upto (\<lambda>k. P (k + a)) m"
  by (induction m) (simp_all add: count_upto_Suc count_upto_0 add.commute)

lemma sampler_loop_step:
  "i < req_N q \<Longrightarrow> rejection J rnd q (Fin 0) (Fin 0) s = Some (u, v, s') \<Longrightarrow>
   sampler_loop J rnd q i us vs duvs s =
     sampler_loop J rnd q (i + 1) (us @ [u]) (vs @ [v]) (duvs @ [jacobian J rnd q u v]) s'"
  by (subst sampler_loop.simps) simp

lemma sampler_loop_stuck:
  "i < req_N q \<Longrightarrow> rejection J rnd q (Fin 0) (Fin 0) s = None \<Longrightarrow>
   sampler_loop J rnd q i us vs duvs s = None"
  by (subst sampler_loop.simps) simp

lemma sampler_loop_exit:
  "\<not> i < req_N q \<Longrightarrow> sampler_loop J rnd q i us vs duvs s = Some (us, vs, duvs, s)"
  by (subst sampler_loop.simps) simp

lemma js_ge_zero: "js_ge (Fin 0) (Fin 0)"
  by simp

lemma first_exit_state:
  "pair_at J rnd q s k = (u, v, s') \<Longrightarrow> s' = (next_state J rnd q ^^ Suc k) s"
  by (simp add: pair_at_def next_state_def)

lemma sampler_loop_Some_iff:
  "sampler_loop J rnd q i us vs duvs s \<noteq> None \<longleftrightarrow>
     (\<exists>m. req_N q - i \<le> count_upto (\<lambda>k. exits (pair_at J rnd q s k)) m)"
proof (induction "req_N q - i" arbitrary: i us vs duvs s)
  case 0
  then have "\<not> i < req_N q" by simp
  then show ?case
    using 0 by (simp add: sampler_loop_exit)
next
  case (Suc d)
  then have lt: "i < req_N q" and d: "d = req_N q - (i + 1)"
    by simp_all
  let ?P = "\<lambda>s k. exits (pair_at J rnd q s k)"
  show ?case
  proof
    assume some: "sampler_loop J rnd q i us vs duvs s \<noteq> None"
    have "rejection J rnd q (Fin 0) (Fin 0) s \<noteq> None"
    proof
      assume "rejection J rnd q (Fin 0) (Fin 0) s = None"
      from sampler_loop_stuck [OF lt this] some show False by simp
    qed
    then obtain u v s' where r: "rejection J rnd q (Fin 0) (Fin 0) s = Some (u, v, s')"
      by (cases "rejection J rnd q (Fin 0) (Fin 0) s") auto
    from rejection_Some_D [OF r] obtain k where
      k: "first_exit J rnd q s k" "(u, v, s') = pair_at J rnd q s k"
      by auto
    have s': "s' = (next_state J rnd q ^^ Suc k) s"
      by (rule first_exit_state [OF k(2) [symmetric]])
    from some have "sampler_loop J rnd q (i + 1) (us @ [u]) (vs @ [v])
        (duvs @ [jacobian J rnd q u v]) s' \<noteq> None"
      by (simp add: sampler_loop_step [OF lt r])
    then have "\<exists>m. req_N q - (i + 1) \<le> count_upto (?P s') m"
      by (simp only: Suc.hyps(1) [OF d, of "us @ [u]" "vs @ [v]" "duvs @ [jacobian J rnd q u v]" s'])
    then obtain m where m: "d \<le> count_upto (?P s') m"
      unfolding d [symmetric] ..
    have shift: "?P s' = (\<lambda>j. ?P s (j + Suc k))"
      unfolding s' by (simp only: pair_at_add)
    have c1: "count_upto (?P s) (Suc k) = 1"
      using k(1) by (intro count_upto_first) (simp_all add: first_exit_def)
    have "count_upto (?P s) (Suc k + m) = 1 + count_upto (?P s') m"
      by (simp only: count_upto_add shift c1)
    then have "req_N q - i \<le> count_upto (?P s) (Suc k + m)"
      using m Suc.hyps(2) by simp
    then show "\<exists>m. req_N q - i \<le> count_upto (?P s) m" ..
  next
    assume "\<exists>m. req_N q - i \<le> count_upto (?P s) m"
    then obtain m where m: "req_N q - i \<le> count_upto (?P s) m" ..
    then have "0 < count_upto (?P s) m"
      using Suc.hyps(2) by simp
    then have ex: "\<exists>k. k < m \<and> ?P s k"
      using count_upto_pos by blast
    define k where "k = (LEAST k. k < m \<and> ?P s k)"
    have km: "k < m \<and> ?P s k"
      unfolding k_def using ex by (rule LeastI_ex)
    have least: "\<forall>i<k. \<not> ?P s i"
    proof (intro allI impI)
      fix i assume "i < k"
      then have "\<not> (i < m \<and> ?P s i)"
        unfolding k_def by (rule not_less_Least)
      with \<open>i < k\<close> km show "\<not> ?P s i" by simp
    qed
    obtain u v s' where p: "pair_at J rnd q s k = (u, v, s')"
      by (cases "pair_at J rnd q s k")
    have r: "rejection J rnd q (Fin 0) (Fin 0) s = Some (u, v, s')"
      using rejection_first_exit [OF js_ge_zero, of J rnd q s k] km least p by simp
    have s': "s' = (next_state J rnd q ^^ Suc k) s"
      by (rule first_exit_state [OF p])
    have shift: "?P s' = (\<lambda>j. ?P s (j + Suc k))"
      unfolding s' by (simp only: pair_at_add)
    have "m = Suc k + (m - Suc k)"
      using km by simp
    then have "count_upto (?P s) m = count_upto (?P s) (Suc k + (m - Suc k))"
      by simp
    also have "\<dots> = 1 + count_upto (?P s') (m - Suc k)"
      using count_upto_first [of "?P s" k] km least
      by (simp only: count_upto_add shift)
    finally have "d \<le> count_upto (?P s') (m - Suc k)"
      using m Suc.hyps(2) by simp
    then have "\<exists>m. req_N q - (i + 1) \<le> count_upto (?P s') m"
      unfolding d [symmetric] ..
    then have "sampler_loop J rnd q (i + 1) (us @ [u]) (vs @ [v])
        (duvs @ [jacobian J rnd q u v]) s' \<noteq> None"
      by (simp only: Suc.hyps(1) [OF d, of "us @ [u]" "vs @ [v]" "duvs @ [jacobian J rnd q u v]" s'])
    then show "sampler_loop J rnd q i us vs duvs s \<noteq> None"
      by (simp add: sampler_loop_step [OF lt r])
  qed
qed

lemma sampler_loop_inv:
  "sampler_loop J rnd q i us vs duvs s = Some (us', vs', duvs', s') \<Longrightarrow>
   \<exists>sam. length sam = req_N q - i
     \<and> us' = us @ map fst sam
     \<and> vs' = vs @ map (\<lambda>p. fst (snd p)) sam
     \<and> duvs' = duvs @ map (\<lambda>p. jacobian J rnd q (fst p) (fst (snd p))) sam
     \<and> (\<forall>p\<in>set sam. exits p \<and> (\<exists>s0. p = draw_pair J rnd q s0))"
proof (induction "req_N q - i" arbitrary: i us vs duvs s)
  case 0
  then have "\<not> i < req_N q" by simp
  with "0.prems" have "us' = us" "vs' = vs" "duvs' = duvs"
    by (simp_all add: sampler_loop_exit)
  with "0.hyps" show ?case by simp
next
  case (Suc d)
  then have lt: "i < req_N q" and d: "d = req_N q - (i + 1)"
    by simp_all
  have "rejection J rnd q (Fin 0) (Fin 0) s \<noteq> None"
  proof
    assume "rejection J rnd q (Fin 0) (Fin 0) s = None"
    from sampler_loop_stuck [OF lt this] Suc.prems show False by simp
  qed
  then obtain u v s1 where r: "rejection J rnd q (Fin 0) (Fin 0) s = Some (u, v, s1)"
    by (cases "rejection J rnd q (Fin 0) (Fin 0) s") auto
  from rejection_Some_D [OF r] obtain k where
    k: "first_exit J rnd q s k" "(u, v, s1) = pair_at J rnd q s k"
    by auto
  have ok: "exits (u, v, s1) \<and> (\<exists>s0. (u, v, s1) = draw_pair J rnd q s0)"
    using k by (auto simp: first_exit_def pair_at_def)
  from Suc.prems have "sampler_loop J rnd q (i + 1) (us @ [u]) (vs @ [v])
      (duvs @ [jacobian J rnd q u v]) s1 = Some (us', vs', duvs', s')"
    by (simp add: sampler_loop_step [OF lt r])
  from Suc.hyps(1) [OF d this] obtain sam where sam:
    "length sam = req_N q - (i + 1)"
    "us' = (us @ [u]) @ map fst sam"
    "vs' = (vs @ [v]) @ map (\<lambda>p. fst (snd p)) sam"
    "duvs' = (duvs @ [jacobian J rnd q u v]) @ map (\<lambda>p. jacobian J rnd q (fst p) (fst (snd p))) sam"
    "\<forall>p\<in>set sam. exits p \<and> (\<exists>s0. p = draw_pair J rnd q s0)"
    by blast
  show ?case
  proof (intro exI [of _ "(u, v, s1) # sam"] conjI)
    show "length ((u, v, s1) # sam) = req_N q - i"
      using sam(1) lt by simp
    show "us' = us @ map fst ((u, v, s1) # sam)"
      by (simp add: sam(2))
    show "vs' = vs @ map (\<lambda>p. fst (snd p)) ((u, v, s1) # sam)"
      by (simp add: sam(3))
    show "duvs' = duvs @ map (\<lambda>p. jacobian J rnd q (fst p) (fst (snd p))) ((u, v, s1) # sam)"
      by (simp add: sam(4))
    show "\<forall>p\<in>set ((u, v, s1) # sam). exits p \<and> (\<exists>s0. p = draw_pair J rnd q s0)"
      using ok sam(5) by simp
  qed
qed

lemma sampler_loop_samples:
  assumes "sampler_loop J rnd q 0 [] [] [] s = Some (us, vs, duvs, s')"
  shows "length us = req_N q \<and> length vs = req_N q \<and> length duvs = req_N q
    \<and> (\<forall>i<req_N q. \<not> js_ge (us ! i) (vs ! i)
          \<and> (\<exists>s0 s1. draw_pair J rnd q s0 = (us ! i, vs ! i, s1))
          \<and> duvs ! i = jacobian J rnd q (us ! i) (vs ! i))"
proof -
  from sampler_loop_inv [OF assms] obtain sam where sam:
    "length sam = req_N q" "us = map fst sam" "vs = map (\<lambda>p. fst (snd p)) sam"
    "duvs = map (\<lambda>p. jacobian J rnd q (fst p) (fst (snd p))) sam"
    "\<forall>p\<in>set sam. exits p \<and> (\<exists>s0. p = draw_pair J rnd q s0)"
    by auto
  have "\<not> js_ge (us ! i) (vs ! i)
          \<and> (\<exists>s0 s1. draw_pair J rnd q s0 = (us ! i, vs ! i, s1))
          \<and> duvs ! i = jacobian J rnd q (us ! i) (vs ! i)" if "i < req_N q" for i
  proof -
    obtain u v s1 where p: "sam ! i = (u, v, s1)"
      by (cases "sam ! i")
    have "sam ! i \<in> set sam"
      using that sam(1) by simp
    with sam(5) p obtain s0 where e: "exits (u, v, s1)" and d: "draw_pair J rnd q s0 = (u, v, s1)"
      by auto
    have nth: "us ! i = u" "vs ! i = v" "duvs ! i = jacobian J rnd q u v"
      using that sam(1) p by (simp_all add: sam(2,3,4))
    have "\<exists>s0 s1. draw_pair J rnd q s0 = (u, v, s1)"
      using d by blast
    then show ?thesis
      using e by (simp add: nth exits_def)
  qed
  then show ?thesis
    by (simp add: sam(1,2,3,4))
qed

lemma draw_pair_unit:
  assumes "\<forall>a b s. unit_interval (fst (beta_sample J a b s))"
    and "draw_pair J rnd q s0 = (u, v, s1)"
  shows "unit_interval u \<and> unit_interval v"
proof -
  let ?a = "js_add rnd (req_k_u q) (req_a_u q)"
  let ?b = "js_add rnd (js_sub rnd (req_n_u q) (req_k_u q)) (req_b_u q)"
  let ?c = "js_add rnd (req_k_v q) (req_a_v q)"
  let ?d = "js_add rnd (js_sub rnd (req_n_v q) (req_k_v q)) (req_b_v q)"
  have "u = fst (beta_sample J ?a ?b s0)"
    and "v = fst (beta_sample J ?c ?d (snd (beta_sample J ?a ?b s0)))"
    using assms(2) by (auto simp: draw_pair_def split: prod.splits)
  then show ?thesis
    using assms(1) by simp
qed

lemma not_js_ge_iff_lt: "u \<noteq> NaN \<Longrightarrow> v \<noteq> NaN \<Longrightarrow> \<not> js_ge u v \<longleftrightarrow> js_lt u v"
  by (cases u; cases v) auto

lemma draw_pair_not_NaN:
  assumes "\<forall>a b s. fst (beta_sample J a b s) \<noteq> NaN"
    and "draw_pair J rnd q s0 = (u, v, s1)"
  shows "u \<noteq> NaN \<and> v \<noteq> NaN"
proof -
  let ?a = "js_add rnd (req_k_u q) (req_a_u q)"
  let ?b = "js_add rnd (js_sub rnd (req_n_u q) (req_k_u q)) (req_b_u q)"
  let ?c = "js_add rnd (req_k_v q) (req_a_v q)"
  let ?d = "js_add rnd (js_sub rnd (req_n_v q) (req_k_v q)) (req_b_v q)"
  have "u = fst (beta_sample J ?a ?b s0)"
    and "v = fst (beta_sample J ?c ?d (snd (beta_sample J ?a ?b s0)))"
    using assms(2) by (auto simp: draw_pair_def split: prod.splits)
  then show ?thesis
    using assms(1) by simp
qed

lemma exits_iff_ordered:
  assumes "\<forall>a b s. fst (beta_sample J a b s) \<noteq> NaN"
  shows "exits (pair_at J rnd q s k) \<longleftrightarrow> ordered (pair_at J rnd q s k)"
proof -
  obtain u v s1 where p: "pair_at J rnd q s k = (u, v, s1)"
    by (cases "pair_at J rnd q s k")
  then have "draw_pair J rnd q ((next_state J rnd q ^^ k) s) = (u, v, s1)"
    by (simp add: pair_at_def)
  from draw_pair_not_NaN [OF assms this] show ?thesis
    by (simp add: p exits_def ordered_def not_js_ge_iff_lt)
qed

section \<open>Special values\<close>

lemma js_sub_not_finite: "\<not> is_finite x \<Longrightarrow> \<not> is_finite (js_sub rnd x c)"
  by (cases x; cases c) simp_all

lemma js_add_not_finite: "\<not> is_finite s \<Longrightarrow> \<not> is_finite (js_add rnd s y)"
  by (cases s; cases y) simp_all

lemma js_add_not_finite_right: "\<not> is_finite y \<Longrightarrow> \<not> is_finite (js_add rnd s y)"
  by (cases s; cases y) simp_all

lemma comp_add_not_finite: "\<not> is_finite s \<Longrightarrow> \<not> is_finite (fst (spec_comp_add rnd (s, c) x))"
  by (simp add: spec_comp_add_def Let_def js_add_not_finite)

lemma comp_add_not_finite_arg:
  "\<not> is_finite x \<Longrightarrow> \<not> is_finite (fst (spec_comp_add rnd (s, c) x))"
  by (simp add: spec_comp_add_def Let_def js_add_not_finite_right js_sub_not_finite)

lemma foldl_comp_add_not_finite:
  "\<not> is_finite (fst acc) \<Longrightarrow> \<not> is_finite (fst (foldl (spec_comp_add rnd) acc xs))"
proof (induction xs arbitrary: acc)
  case Nil
  then show ?case by simp
next
  case (Cons x xs)
  obtain s c where acc: "acc = (s, c)" by (cases acc)
  have "\<not> is_finite (fst (spec_comp_add rnd acc x))"
    using Cons.prems by (simp add: acc comp_add_not_finite)
  then show ?case
    using Cons.IH by simp
qed

lemma foldl_comp_add_finite:
  "is_finite (fst (foldl (spec_comp_add rnd) acc xs)) \<Longrightarrow> \<forall>x\<in>set xs. is_finite x"
proof (induction xs arbitrary: acc)
  case Nil
  then show ?case by simp
next
  case (Cons x xs)
  obtain s c where acc: "acc = (s, c)" by (cases acc)
  have x: "is_finite x"
  proof (rule ccontr)
    assume "\<not> is_finite x"
    then have "\<not> is_finite (fst (spec_comp_add rnd acc x))"
      by (simp add: acc comp_add_not_finite_arg)
    then have "\<not> is_finite (fst (foldl (spec_comp_add rnd) (spec_comp_add rnd acc x) xs))"
      by (rule foldl_comp_add_not_finite)
    with Cons.prems show False by simp
  qed
  from Cons.prems have "is_finite (fst (foldl (spec_comp_add rnd) (spec_comp_add rnd acc x) xs))"
    by simp
  from Cons.IH [OF this] x show ?case by simp
qed

lemma all_finite_map: "\<forall>x\<in>set xs. is_finite x \<Longrightarrow> \<exists>rs. xs = map Fin rs"
proof (induction xs)
  case Nil
  show ?case by simp
next
  case (Cons x xs)
  then obtain r rs where "x = Fin r" "xs = map Fin rs"
    by (auto simp: is_finite_iff)
  then have "x # xs = map Fin (r # rs)" by simp
  then show ?case by (rule exI)
qed

lemma comp_sum_finite: "spec_comp_sum rnd xs = Fin t \<Longrightarrow> \<exists>rs. xs = map Fin rs"
  using foldl_comp_add_finite [of rnd "(Fin 0, Fin 0)" xs] all_finite_map [of xs]
  by (simp add: spec_comp_sum_def)

lemma js_div_zero_not_finite: "\<not> is_finite (js_div rnd x (Fin 0))"
  by (cases x) simp_all

lemma js_add_NaN_right: "js_add rnd x NaN = NaN" by (cases x) simp_all
lemma js_sub_NaN_right: "js_sub rnd x NaN = NaN" by (cases x) simp_all
lemma js_mul_NaN_right: "js_mul rnd x NaN = NaN" by (cases x) simp_all
lemma js_div_NaN_right: "js_div rnd x NaN = NaN" by (cases x) simp_all

lemma comp_add_NaN: "spec_comp_add rnd (NaN, c) x = (NaN, NaN)"
  by (simp add: spec_comp_add_def Let_def)

lemma comp_add_NaN_arg: "spec_comp_add rnd (s, c) NaN = (NaN, NaN)"
  by (simp add: spec_comp_add_def Let_def js_add_NaN_right)

lemma foldl_comp_add_NaN: "fst (foldl (spec_comp_add rnd) (NaN, c) xs) = NaN"
  by (induction xs arbitrary: c) (simp_all add: comp_add_NaN)

lemma comp_sum_NaN: "spec_comp_sum rnd (NaN # xs) = NaN"
  by (simp add: spec_comp_sum_def comp_add_NaN_arg foldl_comp_add_NaN)

lemma grid_loop_grid_zero:
  assumes "req_M q = 0" and "0 < req_N q"
    and "beta_pdf J NaN (js_add rnd (req_k q) (Fin 1))
           (js_add rnd (js_sub rnd (req_n q) (req_k q)) (Fin 1)) = NaN"
  shows "grid_loop J rnd q us vs duvs 0 [] (Fin 0) (Fin 0) = ([NaN], NaN)"
proof -
  have theta: "js_div rnd (js_of_nat 0) (js_of_nat (req_M q)) = NaN"
    by (simp add: assms(1) js_of_nat_def)
  have nan_term: "spec_term J rnd q us vs duvs NaN i = NaN" for i
    by (simp add: spec_term_def js_add_NaN_right assms(3))
  have "[0..<req_N q] = 0 # [1..<req_N q]"
    using assms(2) by (simp add: upt_conv_Cons)
  then have raw: "spec_raw_density J rnd q us vs duvs 0 = NaN"
    by (simp add: spec_raw_density_def theta nan_term comp_sum_NaN)
  show ?thesis
    by (simp add: grid_loop_foldl assms(1) raw comp_add_NaN_arg)
qed

lemma normalization_NaN: "req_M q = 0 \<Longrightarrow> normalization rnd q ([NaN], NaN) = [NaN]"
  by (simp add: normalization_def normalize_loop.simps js_index_def js_store_def)

section \<open>Rounding errors\<close>

text \<open>
  The error of the compensated sum in the standard model. One addition keeps two
  invariants, with \<open>A\<close> the sum of the absolute values added so far: the
  compensation term is at most \<open>4 eps A\<close>, and the running value less the
  compensation term is within \<open>(3 eps + 14 k eps^2) A\<close> of the exact sum after
  \<open>k\<close> additions. The constants are not sharp.
\<close>

lemma rounds_withinD:
  assumes "rounds_within eps rnd"
  obtains y where "rnd x = Fin y" and "\<bar>y - x\<bar> \<le> eps * \<bar>x\<bar>"
  using assms unfolding rounds_within_def by blast

lemma rounds_within_nonneg: "rounds_within eps rnd \<Longrightarrow> 0 \<le> eps"
proof -
  assume R: "rounds_within eps rnd"
  obtain y where "\<bar>y - 1\<bar> \<le> eps * \<bar>1::real\<bar>"
    using rounds_withinD [OF R, of 1] by blast
  then show ?thesis by simp
qed

lemma rounds_within_sign:
  assumes R: "rounds_within eps rnd" and e1: "eps < 1"
  shows "\<exists>y. rnd x = Fin y \<and> (0 < x \<longrightarrow> 0 < y) \<and> (0 \<le> x \<longrightarrow> 0 \<le> y)"
proof -
  obtain y where y: "rnd x = Fin y" "\<bar>y - x\<bar> \<le> eps * \<bar>x\<bar>"
    using rounds_withinD [OF R] by blast
  have pos: "0 < y" if "0 < x"
  proof -
    have "eps * x < 1 * x"
      using e1 that by (intro mult_strict_right_mono)
    moreover have "\<bar>y - x\<bar> \<le> eps * x"
      using y(2) that by simp
    ultimately show ?thesis by linarith
  qed
  have "0 \<le> y" if "0 \<le> x"
  proof (cases "x = 0")
    case True
    with y(2) show ?thesis by simp
  next
    case False
    with that pos show ?thesis by simp
  qed
  with y(1) pos show ?thesis by blast
qed

lemma comp_add_rounded:
  assumes R: "rounds_within eps rnd"
  shows "\<exists>y t u c'. spec_comp_add rnd (Fin s, Fin c) (Fin x) = (Fin t, Fin c')
           \<and> \<bar>y - (x - c)\<bar> \<le> eps * \<bar>x - c\<bar>
           \<and> \<bar>t - (s + y)\<bar> \<le> eps * \<bar>s + y\<bar>
           \<and> \<bar>u - (t - s)\<bar> \<le> eps * \<bar>t - s\<bar>
           \<and> \<bar>c' - (u - y)\<bar> \<le> eps * \<bar>u - y\<bar>"
proof -
  obtain y where y: "rnd (x - c) = Fin y" "\<bar>y - (x - c)\<bar> \<le> eps * \<bar>x - c\<bar>"
    using rounds_withinD [OF R] by blast
  obtain t where t: "rnd (s + y) = Fin t" "\<bar>t - (s + y)\<bar> \<le> eps * \<bar>s + y\<bar>"
    using rounds_withinD [OF R] by blast
  obtain u where u: "rnd (t - s) = Fin u" "\<bar>u - (t - s)\<bar> \<le> eps * \<bar>t - s\<bar>"
    using rounds_withinD [OF R] by blast
  obtain c' where c': "rnd (u - y) = Fin c'" "\<bar>c' - (u - y)\<bar> \<le> eps * \<bar>u - y\<bar>"
    using rounds_withinD [OF R] by blast
  have "spec_comp_add rnd (Fin s, Fin c) (Fin x) = (Fin t, Fin c')"
    by (simp add: spec_comp_add_def Let_def y(1) t(1) u(1) c'(1))
  with y(2) t(2) u(2) c'(2) show ?thesis by blast
qed

lemma kahan_step:
  fixes eps A S s c x y t u c' eta :: real
  assumes eps: "0 \<le> eps" "eps \<le> 1 / 64"
    and S: "\<bar>S\<bar> \<le> A"
    and c: "\<bar>c\<bar> \<le> 4 * eps * A"
    and eta: "0 \<le> eta" "eta \<le> 1 / 2"
    and D: "\<bar>s - c - S\<bar> \<le> eta * A"
    and ry: "\<bar>y - (x - c)\<bar> \<le> eps * \<bar>x - c\<bar>"
    and rt: "\<bar>t - (s + y)\<bar> \<le> eps * \<bar>s + y\<bar>"
    and ru: "\<bar>u - (t - s)\<bar> \<le> eps * \<bar>t - s\<bar>"
    and rc: "\<bar>c' - (u - y)\<bar> \<le> eps * \<bar>u - y\<bar>"
  shows "\<bar>c'\<bar> \<le> 4 * eps * (A + \<bar>x\<bar>)"
    and "\<bar>t - c' - (S + x)\<bar> \<le> eta * A + 3 * eps * \<bar>x\<bar> + 14 * eps\<^sup>2 * A"
proof -
  define X where "X = \<bar>x\<bar>"
  define B where "B = eps * A"
  define E where "E = eps * X"
  define F where "F = eps * B"
  have A0: "0 \<le> A" using S by linarith
  have X0: "0 \<le> X" by (simp add: X_def)
  have B0: "0 \<le> B" by (simp add: B_def eps A0)
  have E0: "0 \<le> E" by (simp add: E_def eps X0)
  have F0: "0 \<le> F" by (simp add: F_def eps B0)
  have BA: "B \<le> A / 64"
    unfolding B_def using mult_right_mono [OF eps(2) A0] by simp
  have FB: "F \<le> B / 64"
    unfolding F_def using mult_right_mono [OF eps(2) B0] by simp
  have eE: "eps * E \<le> E / 64"
    using mult_right_mono [OF eps(2) E0] by simp
  have eF: "eps * F \<le> F / 64"
    using mult_right_mono [OF eps(2) F0] by simp
  have etaA: "eta * A \<le> A / 2"
    using mult_right_mono [OF eta(2) A0] by simp
  have cB: "\<bar>c\<bar> \<le> 4 * B"
    using c by (simp add: B_def)
  have sb: "\<bar>s\<bar> \<le> 2 * A"
    using D etaA cB BA S by linarith
  have xc: "\<bar>x - c\<bar> \<le> X + 4 * B"
    using cB unfolding X_def by linarith
  have "eps * \<bar>x - c\<bar> \<le> eps * (X + 4 * B)"
    by (rule mult_left_mono [OF xc eps(1)])
  also have "\<dots> = E + 4 * F"
    by (simp add: E_def F_def algebra_simps)
  finally have e0: "\<bar>y - (x - c)\<bar> \<le> E + 4 * F"
    using ry by linarith
  have yb: "\<bar>y\<bar> \<le> X + E + 4 * B + 4 * F"
    using e0 xc by linarith
  have syb: "\<bar>s + y\<bar> \<le> 2 * A + X + E + 4 * B + 4 * F"
    using sb yb by linarith
  have "eps * \<bar>s + y\<bar> \<le> eps * (2 * A + X + E + 4 * B + 4 * F)"
    by (rule mult_left_mono [OF syb eps(1)])
  also have "\<dots> = 2 * B + E + eps * E + 4 * F + 4 * (eps * F)"
    by (simp add: B_def E_def F_def algebra_simps)
  finally have e1: "\<bar>t - (s + y)\<bar> \<le> 2 * B + (65 / 64) * E + (65 / 16) * F"
    using rt eE eF by linarith
  have tsb: "\<bar>t - s\<bar> \<le> X + (129 / 64) * E + 6 * B + (129 / 16) * F"
    using yb e1 by linarith
  have "eps * \<bar>t - s\<bar> \<le> eps * (X + (129 / 64) * E + 6 * B + (129 / 16) * F)"
    by (rule mult_left_mono [OF tsb eps(1)])
  also have "\<dots> = E + (129 / 64) * (eps * E) + 6 * F + (129 / 16) * (eps * F)"
    by (simp add: E_def F_def algebra_simps)
  finally have e2: "\<bar>u - (t - s)\<bar> \<le> (17 / 16) * E + 7 * F"
    using ru eE eF E0 F0 by linarith
  have uy: "\<bar>u - y\<bar> \<le> 2 * B + (133 / 64) * E + (177 / 16) * F"
    using e1 e2 by linarith
  have "eps * \<bar>u - y\<bar> \<le> eps * (2 * B + (133 / 64) * E + (177 / 16) * F)"
    by (rule mult_left_mono [OF uy eps(1)])
  also have "\<dots> = 2 * F + (133 / 64) * (eps * E) + (177 / 16) * (eps * F)"
    by (simp add: F_def algebra_simps)
  finally have e3: "\<bar>c' - (u - y)\<bar> \<le> (1 / 16) * E + 3 * F"
    using rc eE eF E0 F0 by linarith
  have "\<bar>c'\<bar> \<le> 4 * B + 4 * E"
    using uy e3 FB B0 E0 F0 by linarith
  then show "\<bar>c'\<bar> \<le> 4 * eps * (A + \<bar>x\<bar>)"
    by (simp add: B_def E_def X_def algebra_simps)
  have "\<bar>t - c' - (S + x)\<bar> \<le> eta * A + 3 * E + 14 * F"
    using D e0 e1 e2 e3 E0 F0 by linarith
  then show "\<bar>t - c' - (S + x)\<bar> \<le> eta * A + 3 * eps * \<bar>x\<bar> + 14 * eps\<^sup>2 * A"
    by (simp add: B_def E_def F_def X_def power2_eq_square algebra_simps)
qed

lemma kahan_constants:
  fixes eps n :: real
  assumes "0 \<le> eps" "eps \<le> 1 / 64" "0 \<le> n" "n * eps \<le> 1 / 4"
  shows "3 * eps + 14 * n * eps\<^sup>2 \<le> 1 / 2" and "7 * eps + 14 * n * eps\<^sup>2 \<le> 1 / 6"
    and "0 \<le> 14 * n * eps\<^sup>2"
proof -
  have "(n * eps) * eps \<le> (1 / 4) * (1 / 64)"
    using assms by (intro mult_mono) simp_all
  then have b: "n * eps\<^sup>2 \<le> 1 / 256"
    by (simp add: power2_eq_square algebra_simps)
  show "3 * eps + 14 * n * eps\<^sup>2 \<le> 1 / 2" and "7 * eps + 14 * n * eps\<^sup>2 \<le> 1 / 6"
    using b assms(2) by linarith+
  show "0 \<le> 14 * n * eps\<^sup>2"
    using assms(3) by simp
qed

lemma kahan_fold:
  assumes R: "rounds_within eps rnd" and eps: "eps \<le> 1 / 64"
  shows "real (length xs) * eps \<le> 1 / 4 \<Longrightarrow>
    \<exists>s c. foldl (spec_comp_add rnd) (Fin 0, Fin 0) (map Fin xs) = (Fin s, Fin c)
      \<and> \<bar>c\<bar> \<le> 4 * eps * sum_list (map abs xs)
      \<and> \<bar>s - c - sum_list xs\<bar>
          \<le> (3 * eps + 14 * real (length xs) * eps\<^sup>2) * sum_list (map abs xs)"
proof (induction xs rule: rev_induct)
  case Nil
  show ?case by simp
next
  case (snoc x xs)
  note e0 = rounds_within_nonneg [OF R]
  define n where "n = real (length xs)"
  define A where "A = sum_list (map abs xs)"
  define S where "S = sum_list xs"
  define eta where "eta = 3 * eps + 14 * n * eps\<^sup>2"
  have n0: "0 \<le> n" by (simp add: n_def)
  have "n * eps \<le> real (length (xs @ [x])) * eps"
    using e0 by (intro mult_right_mono) (simp_all add: n_def)
  with snoc.prems have ne: "n * eps \<le> 1 / 4" by linarith
  from snoc.IH ne obtain s c where
    st: "foldl (spec_comp_add rnd) (Fin 0, Fin 0) (map Fin xs) = (Fin s, Fin c)"
    and c: "\<bar>c\<bar> \<le> 4 * eps * A" and D: "\<bar>s - c - S\<bar> \<le> eta * A"
    unfolding n_def A_def S_def eta_def by blast
  have SA: "\<bar>S\<bar> \<le> A"
    unfolding S_def A_def by (rule sum_list_abs)
  have A0: "0 \<le> A" using SA by linarith
  have eta0: "0 \<le> eta" and eta2: "eta \<le> 1 / 2"
    using kahan_constants [OF e0 eps n0 ne] e0 by (simp_all add: eta_def)
  from comp_add_rounded [OF R, of s c x] obtain y t u c' where
    step: "spec_comp_add rnd (Fin s, Fin c) (Fin x) = (Fin t, Fin c')"
    and r: "\<bar>y - (x - c)\<bar> \<le> eps * \<bar>x - c\<bar>" "\<bar>t - (s + y)\<bar> \<le> eps * \<bar>s + y\<bar>"
      "\<bar>u - (t - s)\<bar> \<le> eps * \<bar>t - s\<bar>" "\<bar>c' - (u - y)\<bar> \<le> eps * \<bar>u - y\<bar>"
    by blast
  note k = kahan_step [OF e0 eps SA c eta0 eta2 D r]
  have fold: "foldl (spec_comp_add rnd) (Fin 0, Fin 0) (map Fin (xs @ [x])) = (Fin t, Fin c')"
    by (simp add: st step)
  have c'b: "\<bar>c'\<bar> \<le> 4 * eps * sum_list (map abs (xs @ [x]))"
    using k(1) by (simp add: A_def)
  have X0: "0 \<le> 14 * eps\<^sup>2 * \<bar>x\<bar>" and nX0: "0 \<le> 14 * n * eps\<^sup>2 * \<bar>x\<bar>"
    using n0 by simp_all
  have "eta * A + 3 * eps * \<bar>x\<bar> + 14 * eps\<^sup>2 * A
          \<le> (3 * eps + 14 * (n + 1) * eps\<^sup>2) * (A + \<bar>x\<bar>)"
    using X0 nX0 by (simp add: eta_def algebra_simps)
  with k(2) have "\<bar>t - c' - sum_list (xs @ [x])\<bar>
          \<le> (3 * eps + 14 * real (length (xs @ [x])) * eps\<^sup>2) * sum_list (map abs (xs @ [x]))"
    by (simp add: S_def A_def n_def algebra_simps)
  with fold c'b show ?case by blast
qed

lemma kahan_sum_error:
  assumes R: "rounds_within eps rnd" and eps: "eps \<le> 1 / 64"
    and n: "real (length xs) * eps \<le> 1 / 4"
  shows "\<exists>s. spec_comp_sum rnd (map Fin xs) = Fin s
      \<and> \<bar>s - sum_list xs\<bar>
          \<le> (7 * eps + 14 * real (length xs) * eps\<^sup>2) * sum_list (map abs xs)"
proof -
  from kahan_fold [OF R eps n] obtain s c where
    st: "foldl (spec_comp_add rnd) (Fin 0, Fin 0) (map Fin xs) = (Fin s, Fin c)"
    and c: "\<bar>c\<bar> \<le> 4 * eps * sum_list (map abs xs)"
    and D: "\<bar>s - c - sum_list xs\<bar>
          \<le> (3 * eps + 14 * real (length xs) * eps\<^sup>2) * sum_list (map abs xs)"
    by blast
  have "\<bar>s - sum_list xs\<bar> \<le> (7 * eps + 14 * real (length xs) * eps\<^sup>2) * sum_list (map abs xs)"
    using c D by (simp add: algebra_simps)
  then show ?thesis
    by (simp add: spec_comp_sum_def st)
qed

lemma sum_list_abs_nonneg: "\<forall>x\<in>set xs. 0 \<le> x \<Longrightarrow> sum_list (map abs xs) = sum_list (xs::real list)"
  by (induction xs) simp_all

lemma sum_list_abs_ge0: "0 \<le> sum_list (map abs (xs::real list))"
  by (induction xs) simp_all

lemma kahan_sum_nonneg:
  assumes R: "rounds_within eps rnd" and eps: "eps \<le> 1 / 64"
    and n: "real (length xs) * eps \<le> 1 / 4" and pos: "\<forall>x\<in>set xs. 0 \<le> x"
  shows "\<exists>s. spec_comp_sum rnd (map Fin xs) = Fin s \<and> 0 \<le> s"
proof -
  note e0 = rounds_within_nonneg [OF R]
  define kap where "kap = 7 * eps + 14 * real (length xs) * eps\<^sup>2"
  from kahan_sum_error [OF R eps n] obtain s where
    s: "spec_comp_sum rnd (map Fin xs) = Fin s" and b: "\<bar>s - sum_list xs\<bar> \<le> kap * sum_list xs"
    by (auto simp: sum_list_abs_nonneg [OF pos] kap_def)
  have S0: "0 \<le> sum_list xs"
    using pos by (simp add: sum_list_nonneg)
  have "kap \<le> 1 / 6"
    unfolding kap_def using kahan_constants(2) [OF e0 eps _ n] by simp
  then have "kap * sum_list xs \<le> 1 * sum_list xs"
    using S0 by (intro mult_right_mono) simp_all
  with b have "0 \<le> s" by linarith
  with s show ?thesis by blast
qed

lemma plain_sum_error_abs:
  assumes R: "rounds_within eps rnd"
  shows "real (length xs) * eps \<le> 1 / 4 \<Longrightarrow>
    \<exists>s. foldl (js_add rnd) (Fin 0) (map Fin xs) = Fin s
      \<and> \<bar>s - sum_list xs\<bar> \<le> 2 * real (length xs) * eps * sum_list (map abs xs)"
proof (induction xs rule: rev_induct)
  case Nil
  show ?case by simp
next
  case (snoc x xs)
  note e0 = rounds_within_nonneg [OF R]
  define k where "k = real (length xs)"
  define S where "S = sum_list xs"
  define A where "A = sum_list (map abs xs)"
  define g where "g = 2 * k * eps"
  have k0: "0 \<le> k" by (simp add: k_def)
  have "k * eps \<le> real (length (xs @ [x])) * eps"
    using e0 by (intro mult_right_mono) (simp_all add: k_def)
  with snoc.prems have ke: "k * eps \<le> 1 / 4" by linarith
  have SA: "\<bar>S\<bar> \<le> A"
    unfolding S_def A_def by (rule sum_list_abs)
  have A0: "0 \<le> A" using SA by linarith
  from snoc.IH ke obtain s where
    s: "foldl (js_add rnd) (Fin 0) (map Fin xs) = Fin s" and b: "\<bar>s - S\<bar> \<le> g * A"
    unfolding k_def S_def A_def g_def by blast
  obtain t where t: "rnd (s + x) = Fin t" "\<bar>t - (s + x)\<bar> \<le> eps * \<bar>s + x\<bar>"
    using rounds_withinD [OF R] by blast
  have g0: "0 \<le> g" and g1: "g \<le> 1 / 2"
    using k0 e0 ke by (simp_all add: g_def)
  have gAh: "g * A \<le> (1 / 2) * A"
    using g1 A0 by (intro mult_right_mono)
  have sx: "\<bar>s + x\<bar> \<le> 2 * A + \<bar>x\<bar>"
    using b gAh SA by linarith
  have "eps * \<bar>s + x\<bar> \<le> eps * (2 * A + \<bar>x\<bar>)"
    by (rule mult_left_mono [OF sx e0])
  also have "\<dots> = 2 * eps * A + eps * \<bar>x\<bar>"
    by (simp add: algebra_simps)
  finally have e: "\<bar>t - (s + x)\<bar> \<le> 2 * eps * A + eps * \<bar>x\<bar>"
    using t(2) by linarith
  have ex0: "0 \<le> eps * \<bar>x\<bar>" and gx0: "0 \<le> g * \<bar>x\<bar>"
    using e0 g0 by simp_all
  have "\<bar>t - (S + x)\<bar> \<le> g * A + 2 * eps * A + eps * \<bar>x\<bar>"
    using e b by linarith
  also have "\<dots> \<le> (g + 2 * eps) * (A + \<bar>x\<bar>)"
    using ex0 gx0 by (simp add: algebra_simps)
  also have "g + 2 * eps = 2 * real (length (xs @ [x])) * eps"
    by (simp add: g_def k_def algebra_simps)
  finally have "\<bar>t - sum_list (xs @ [x])\<bar>
      \<le> 2 * real (length (xs @ [x])) * eps * sum_list (map abs (xs @ [x]))"
    by (simp add: S_def A_def)
  moreover have "foldl (js_add rnd) (Fin 0) (map Fin (xs @ [x])) = Fin t"
    by (simp add: s t(1))
  ultimately show ?case by blast
qed

lemma js_div_rounded:
  assumes R: "rounds_within eps rnd" and e1: "eps \<le> 1" and c: "0 < c" and r: "0 \<le> r"
  shows "\<exists>y. js_div rnd (Fin r) (Fin c) = Fin y \<and> 0 \<le> y \<and> \<bar>y * c - r\<bar> \<le> eps * r"
proof -
  obtain y where y: "rnd (r / c) = Fin y" "\<bar>y - r / c\<bar> \<le> eps * \<bar>r / c\<bar>"
    using rounds_withinD [OF R] by blast
  have rc: "0 \<le> r / c" using c r by simp
  have b: "\<bar>y - r / c\<bar> \<le> eps * (r / c)"
    using y(2) unfolding abs_of_nonneg [OF rc] .
  have "eps * (r / c) \<le> 1 * (r / c)"
    using e1 rc by (intro mult_right_mono)
  with b have y0: "0 \<le> y" by linarith
  have "y * c - r = (y - r / c) * c"
    using c by (simp add: field_simps)
  then have "\<bar>y * c - r\<bar> = \<bar>y - r / c\<bar> * c"
    using c by (simp add: abs_mult)
  also have "\<dots> \<le> (eps * (r / c)) * c"
    using b c by (intro mult_right_mono) simp_all
  also have "\<dots> = eps * r"
    using c by simp
  finally have "\<bar>y * c - r\<bar> \<le> eps * r" .
  moreover have "js_div rnd (Fin r) (Fin c) = Fin y"
    using c by (simp add: y(1))
  ultimately show ?thesis
    using y0 by blast
qed

lemma normalized_entries:
  assumes R: "rounds_within eps rnd" and e1: "eps \<le> 1" and c: "0 < c"
  shows "\<forall>r\<in>set rs. 0 \<le> r \<Longrightarrow>
    \<exists>os. map (\<lambda>x. js_div rnd x (Fin c)) (map Fin rs) = map Fin os \<and> length os = length rs
      \<and> (\<forall>y\<in>set os. 0 \<le> y) \<and> \<bar>sum_list os * c - sum_list rs\<bar> \<le> eps * sum_list rs"
proof (induction rs)
  case Nil
  show ?case by simp
next
  case (Cons r rs)
  then have r: "0 \<le> r" and rs: "\<forall>r\<in>set rs. 0 \<le> r"
    by simp_all
  from js_div_rounded [OF R e1 c r] obtain y where
    y: "js_div rnd (Fin r) (Fin c) = Fin y" "0 \<le> y" "\<bar>y * c - r\<bar> \<le> eps * r"
    by blast
  from Cons.IH [OF rs] obtain os where
    os: "map (\<lambda>x. js_div rnd x (Fin c)) (map Fin rs) = map Fin os" "length os = length rs"
      "\<forall>y\<in>set os. 0 \<le> y" "\<bar>sum_list os * c - sum_list rs\<bar> \<le> eps * sum_list rs"
    by blast
  have eq: "(y + sum_list os) * c = y * c + sum_list os * c"
    by (simp add: algebra_simps)
  have eq2: "eps * (r + sum_list rs) = eps * r + eps * sum_list rs"
    by (simp add: algebra_simps)
  have "\<bar>(y + sum_list os) * c - (r + sum_list rs)\<bar> \<le> eps * (r + sum_list rs)"
    using y(3) os(4) unfolding eq eq2 by linarith
  then have "\<bar>sum_list (y # os) * c - sum_list (r # rs)\<bar> \<le> eps * sum_list (r # rs)"
    by simp
  moreover have "map (\<lambda>x. js_div rnd x (Fin c)) (map Fin (r # rs)) = map Fin (y # os)"
    using y(1) os(1) by simp
  moreover have "length (y # os) = length (r # rs)"
    using os(2) by simp
  moreover have "\<forall>z\<in>set (y # os). 0 \<le> z"
    using y(2) os(3) by simp
  ultimately show ?case by blast
qed

lemma js_div_rounded_abs:
  assumes R: "rounds_within eps rnd" and c: "c \<noteq> 0"
  shows "\<exists>y. js_div rnd (Fin r) (Fin c) = Fin y \<and> \<bar>y * c - r\<bar> \<le> eps * \<bar>r\<bar>
           \<and> \<bar>y\<bar> * \<bar>c\<bar> \<le> (1 + eps) * \<bar>r\<bar>"
proof -
  obtain y where y: "rnd (r / c) = Fin y" "\<bar>y - r / c\<bar> \<le> eps * \<bar>r / c\<bar>"
    using rounds_withinD [OF R] by blast
  have c0: "0 < \<bar>c\<bar>" using c by simp
  have "y * c - r = (y - r / c) * c"
    using c by (simp add: field_simps)
  then have "\<bar>y * c - r\<bar> = \<bar>y - r / c\<bar> * \<bar>c\<bar>"
    by (simp add: abs_mult)
  also have "\<dots> \<le> (eps * \<bar>r / c\<bar>) * \<bar>c\<bar>"
    using y(2) c0 by (intro mult_right_mono) simp_all
  also have "\<dots> = eps * \<bar>r\<bar>"
    using c by (simp add: abs_divide)
  finally have b: "\<bar>y * c - r\<bar> \<le> eps * \<bar>r\<bar>" .
  have "\<bar>y\<bar> * \<bar>c\<bar> = \<bar>y * c\<bar>"
    by (simp add: abs_mult)
  also have "\<dots> \<le> \<bar>r\<bar> + eps * \<bar>r\<bar>"
    using b by linarith
  also have "\<dots> = (1 + eps) * \<bar>r\<bar>"
    by (simp add: algebra_simps)
  finally have s: "\<bar>y\<bar> * \<bar>c\<bar> \<le> (1 + eps) * \<bar>r\<bar>" .
  have "js_div rnd (Fin r) (Fin c) = Fin y"
    using c by (simp add: y(1))
  with b s show ?thesis by blast
qed

lemma normalized_entries_abs:
  assumes R: "rounds_within eps rnd" and c: "c \<noteq> 0"
  shows "\<exists>os. map (\<lambda>x. js_div rnd x (Fin c)) (map Fin rs) = map Fin os \<and> length os = length rs
      \<and> \<bar>sum_list os * c - sum_list rs\<bar> \<le> eps * sum_list (map abs rs)
      \<and> sum_list (map abs os) * \<bar>c\<bar> \<le> (1 + eps) * sum_list (map abs rs)"
proof (induction rs)
  case Nil
  show ?case by simp
next
  case (Cons r rs)
  from js_div_rounded_abs [OF R c, of r] obtain y where
    y: "js_div rnd (Fin r) (Fin c) = Fin y" "\<bar>y * c - r\<bar> \<le> eps * \<bar>r\<bar>"
      "\<bar>y\<bar> * \<bar>c\<bar> \<le> (1 + eps) * \<bar>r\<bar>"
    by blast
  from Cons.IH obtain os where
    os: "map (\<lambda>x. js_div rnd x (Fin c)) (map Fin rs) = map Fin os" "length os = length rs"
      "\<bar>sum_list os * c - sum_list rs\<bar> \<le> eps * sum_list (map abs rs)"
      "sum_list (map abs os) * \<bar>c\<bar> \<le> (1 + eps) * sum_list (map abs rs)"
    by blast
  have eq: "(y + sum_list os) * c = y * c + sum_list os * c"
    by (simp add: algebra_simps)
  have eq2: "eps * (\<bar>r\<bar> + sum_list (map abs rs)) = eps * \<bar>r\<bar> + eps * sum_list (map abs rs)"
    by (simp add: algebra_simps)
  have "\<bar>(y + sum_list os) * c - (r + sum_list rs)\<bar> \<le> eps * (\<bar>r\<bar> + sum_list (map abs rs))"
    using y(2) os(3) unfolding eq eq2 by linarith
  then have "\<bar>sum_list (y # os) * c - sum_list (r # rs)\<bar> \<le> eps * sum_list (map abs (r # rs))"
    by simp
  moreover have "map (\<lambda>x. js_div rnd x (Fin c)) (map Fin (r # rs)) = map Fin (y # os)"
    using y(1) os(1) by simp
  moreover have "length (y # os) = length (r # rs)"
    using os(2) by simp
  moreover have "sum_list (map abs (y # os)) * \<bar>c\<bar> \<le> (1 + eps) * sum_list (map abs (r # rs))"
  proof -
    have "(\<bar>y\<bar> + sum_list (map abs os)) * \<bar>c\<bar> = \<bar>y\<bar> * \<bar>c\<bar> + sum_list (map abs os) * \<bar>c\<bar>"
      by (simp add: algebra_simps)
    moreover have "(1 + eps) * (\<bar>r\<bar> + sum_list (map abs rs))
        = (1 + eps) * \<bar>r\<bar> + (1 + eps) * sum_list (map abs rs)"
      by (simp add: algebra_simps)
    ultimately have "(\<bar>y\<bar> + sum_list (map abs os)) * \<bar>c\<bar> \<le> (1 + eps) * (\<bar>r\<bar> + sum_list (map abs rs))"
      using y(3) os(4) by linarith
    then show ?thesis by simp
  qed
  ultimately show ?case by blast
qed

lemma entries_size:
  fixes eps A Ao c n t :: real
  assumes e0: "0 \<le> eps" and eps: "eps \<le> 1 / 64" and n: "0 < n" and t: "t \<noteq> 0"
    and A: "0 \<le> A" and Ao: "0 \<le> Ao"
    and c: "\<bar>c * n - t\<bar> \<le> eps * \<bar>t\<bar>"
    and s: "Ao * \<bar>c\<bar> \<le> (1 + eps) * A"
  shows "Ao \<le> (21 / 20) * n * (A / \<bar>t\<bar>)"
proof -
  have t0: "0 < \<bar>t\<bar>" using t by simp
  have "eps * \<bar>t\<bar> \<le> (1 / 64) * \<bar>t\<bar>"
    using eps t0 by (intro mult_right_mono) simp_all
  with c have "(63 / 64) * \<bar>t\<bar> \<le> \<bar>c * n\<bar>"
    by linarith
  also have "\<bar>c * n\<bar> = \<bar>c\<bar> * n"
    using n by (simp add: abs_mult)
  finally have cn: "(63 / 64) * \<bar>t\<bar> \<le> \<bar>c\<bar> * n" .
  have "Ao * ((63 / 64) * \<bar>t\<bar>) \<le> Ao * (\<bar>c\<bar> * n)"
    by (rule mult_left_mono [OF cn Ao])
  also have "\<dots> = (Ao * \<bar>c\<bar>) * n"
    by simp
  also have "\<dots> \<le> ((1 + eps) * A) * n"
    using s n by (intro mult_right_mono) simp_all
  also have "\<dots> \<le> ((65 / 64) * A) * n"
  proof -
    have h: "(1 + eps) * A \<le> (65 / 64) * A"
      using eps A by (intro mult_right_mono) simp_all
    have n0: "0 \<le> n" using n by simp
    show ?thesis
      by (rule mult_right_mono [OF h n0])
  qed
  finally have "Ao * \<bar>t\<bar> * (63 / 64) \<le> (65 / 64) * A * n"
    by (simp add: algebra_simps)
  moreover have "0 \<le> A * n" using A n by simp
  ultimately have "Ao * \<bar>t\<bar> \<le> (21 / 20) * (A * n)"
    by linarith
  then have "Ao \<le> ((21 / 20) * (A * n)) / \<bar>t\<bar>"
    using t0 by (simp add: pos_le_divide_eq)
  also have "\<dots> = (21 / 20) * n * (A / \<bar>t\<bar>)"
    by simp
  finally show ?thesis .
qed

lemma ratio_tolerance_abs:
  fixes eps kap A S t c n P :: real
  assumes eps: "0 \<le> eps" "eps \<le> 1 / 64" and kap: "0 \<le> kap" and n: "0 < n" and t: "t \<noteq> 0"
    and A: "0 \<le> A"
    and T: "\<bar>t - S\<bar> \<le> kap * A"
    and c: "\<bar>c * n - t\<bar> \<le> eps * \<bar>t\<bar>"
    and P: "\<bar>P * c - S\<bar> \<le> eps * A"
  shows "\<bar>P / n - 1\<bar> \<le> 2 * (eps + (eps + kap) * (A / \<bar>t\<bar>))"
proof -
  define X where "X = \<bar>P / n - 1\<bar>"
  define d where "d = P * c - t"
  define e where "e = c * n - t"
  define W where "W = X * \<bar>t\<bar>"
  have t0: "0 < \<bar>t\<bar>" using t by simp
  have X0: "0 \<le> X" by (simp add: X_def)
  have W0: "0 \<le> W" using X0 t0 by (simp add: W_def)
  have ekA: "(eps + kap) * A = eps * A + kap * A"
    by (simp add: algebra_simps)
  have d: "\<bar>d\<bar> \<le> (eps + kap) * A"
    using T P unfolding d_def ekA by linarith
  have e: "\<bar>e\<bar> \<le> eps * \<bar>t\<bar>"
    using c by (simp add: e_def)
  have id: "(P - n) * t = n * d - P * e"
    unfolding d_def e_def by (simp add: algebra_simps)
  have "\<bar>P - n\<bar> * \<bar>t\<bar> = \<bar>n * d - P * e\<bar>"
    by (simp add: id [symmetric] abs_mult)
  also have "\<dots> \<le> \<bar>n * d\<bar> + \<bar>P * e\<bar>"
    by (rule abs_triangle_ineq4)
  also have "\<dots> = n * \<bar>d\<bar> + \<bar>P\<bar> * \<bar>e\<bar>"
    using n by (simp add: abs_mult)
  also have "\<dots> \<le> n * ((eps + kap) * A) + \<bar>P\<bar> * (eps * \<bar>t\<bar>)"
    using n d e by (intro add_mono mult_left_mono) simp_all
  finally have main: "\<bar>P - n\<bar> * \<bar>t\<bar> \<le> n * ((eps + kap) * A) + \<bar>P\<bar> * (eps * \<bar>t\<bar>)" .
  have "P / n - 1 = (P - n) / n"
    using n by (simp add: field_simps)
  then have "X = \<bar>P - n\<bar> / n"
    using n by (simp add: X_def abs_divide)
  then have Xn: "\<bar>P - n\<bar> = n * X"
    using n by simp
  have q: "\<bar>P / n\<bar> \<le> 1 + X"
    unfolding X_def by linarith
  have "n * \<bar>P / n\<bar> \<le> n * (1 + X)"
    using n by (intro mult_left_mono q) simp
  moreover have "n * \<bar>P / n\<bar> = \<bar>P\<bar>"
    using n by (simp add: abs_divide)
  ultimately have Pn: "\<bar>P\<bar> \<le> n * (1 + X)"
    by linarith
  have et: "0 \<le> eps * \<bar>t\<bar>"
    using eps(1) by simp
  have "\<bar>P\<bar> * (eps * \<bar>t\<bar>) \<le> (n * (1 + X)) * (eps * \<bar>t\<bar>)"
    by (rule mult_right_mono [OF Pn et])
  with main have "n * X * \<bar>t\<bar> \<le> n * ((eps + kap) * A) + (n * (1 + X)) * (eps * \<bar>t\<bar>)"
    unfolding Xn by linarith
  also have "\<dots> = n * ((eps + kap) * A + eps * \<bar>t\<bar> + eps * W)"
    by (simp add: W_def algebra_simps)
  finally have "n * W \<le> n * ((eps + kap) * A + eps * \<bar>t\<bar> + eps * W)"
    by (simp add: W_def algebra_simps)
  then have W: "W \<le> (eps + kap) * A + eps * \<bar>t\<bar> + eps * W"
    using n by simp
  define G where "G = (eps + kap) * A + eps * \<bar>t\<bar>"
  have WG: "W \<le> G + eps * W"
    using W by (simp add: G_def)
  have "eps * W \<le> (1 / 64) * W"
    by (rule mult_right_mono [OF eps(2) W0])
  with WG W0 have "W \<le> 2 * G"
    by linarith
  then have W2: "W \<le> 2 * ((eps + kap) * A + eps * \<bar>t\<bar>)"
    by (simp add: G_def)
  have "X = W / \<bar>t\<bar>"
    using t0 by (simp add: W_def)
  also have "\<dots> \<le> (2 * ((eps + kap) * A + eps * \<bar>t\<bar>)) / \<bar>t\<bar>"
    using W2 t0 by (intro divide_right_mono) simp_all
  also have "\<dots> = 2 * (eps + (eps + kap) * (A / \<bar>t\<bar>))"
    using t0 by (simp add: field_simps)
  finally show ?thesis
    by (simp add: X_def)
qed

lemma computed_ratio_abs:
  fixes eps a b r B Z :: real
  assumes e0: "0 \<le> eps" and eps: "eps \<le> 1 / 64"
    and a: "\<bar>a - 1\<bar> \<le> B" and b: "\<bar>b - a\<bar> \<le> Z" and r: "\<bar>r - b\<bar> \<le> eps * \<bar>b\<bar>"
  shows "\<bar>r - 1\<bar> \<le> eps + (65 / 64) * (B + Z)"
proof -
  have BZ: "0 \<le> B + Z" using a b by linarith
  have bb: "\<bar>b\<bar> \<le> 1 + (B + Z)" using a b by linarith
  have "eps * \<bar>b\<bar> \<le> eps * (1 + (B + Z))"
    by (rule mult_left_mono [OF bb e0])
  also have "\<dots> = eps + eps * (B + Z)"
    by (simp add: algebra_simps)
  also have "eps * (B + Z) \<le> (1 / 64) * (B + Z)"
    by (rule mult_right_mono [OF eps BZ])
  finally have "eps * \<bar>b\<bar> \<le> eps + (1 / 64) * (B + Z)"
    by simp
  with r have rb: "\<bar>r - b\<bar> \<le> eps + (1 / 64) * (B + Z)"
    by simp
  have "\<bar>r - 1\<bar> \<le> \<bar>r - b\<bar> + \<bar>b - a\<bar> + \<bar>a - 1\<bar>"
    by linarith
  also have "\<dots> \<le> (eps + (1 / 64) * (B + Z)) + Z + B"
    using a b rb by (intro add_mono) simp_all
  also have "\<dots> = eps + (65 / 64) * (B + Z)"
    by (simp add: algebra_simps)
  finally show ?thesis .
qed

section \<open>The retained samples\<close>

lemma retained_pairs:
  assumes "\<forall>a b s. unit_interval (fst (beta_sample J a b s))"
    and "sampler_loop J rnd q 0 [] [] [] s = Some (us, vs, duvs, s')"
    and "i < req_N q"
  shows "\<exists>x y. us ! i = Fin x \<and> vs ! i = Fin y \<and> 0 \<le> x \<and> x < y \<and> y \<le> 1"
proof -
  from sampler_loop_samples [OF assms(2)] assms(3) obtain s0 s1 where
    ge: "\<not> js_ge (us ! i) (vs ! i)" and d: "draw_pair J rnd q s0 = (us ! i, vs ! i, s1)"
    by blast
  from draw_pair_unit [OF assms(1) d] obtain x y where
    "us ! i = Fin x" "vs ! i = Fin y" "0 \<le> x" "x \<le> 1" "0 \<le> y" "y \<le> 1"
    by (auto simp: unit_interval_def split: jsnum.splits)
  with ge show ?thesis by auto
qed

lemma js_sub_complements:
  "js_sub Fin (js_sub Fin (Fin 1) a) (js_sub Fin (Fin 1) b) = js_sub Fin b a"
  by (cases a; cases b) simp_all

lemma jacobian_direct:
  assumes "ibeta_symmetric J (js_add Fin (js_sub Fin (req_n q) (req_k q)) (Fin 1))
             (js_add Fin (req_k q) (Fin 1))"
    and "0 \<le> x" "x \<le> 1" "0 \<le> y" "y \<le> 1"
  shows "jacobian J Fin q (Fin x) (Fin y) = spec_direct_jacobian J q (Fin x) (Fin y)"
proof -
  let ?A = "js_add Fin (js_sub Fin (req_n q) (req_k q)) (Fin 1)"
  let ?B = "js_add Fin (req_k q) (Fin 1)"
  have sym: "ibeta J (Fin (1 - t)) ?A ?B = js_sub Fin (Fin 1) (ibeta J (Fin t) ?B ?A)"
    if "0 \<le> t" "t \<le> 1" for t
    using assms(1) [unfolded ibeta_symmetric_def, rule_format, of "1 - t"] that by simp
  show ?thesis
    by (simp add: jacobian_def spec_direct_jacobian_def Let_def sym assms(2-5) js_sub_complements)
qed

lemma jacobian_positive:
  assumes R: "rounds_within eps rnd" and e1: "eps < 1" and M: "monotone_rounding rnd"
    and I: "ibeta_monotone J (js_add rnd (js_sub rnd (req_n q) (req_k q)) (Fin 1))
             (js_add rnd (req_k q) (Fin 1))"
    and x: "0 \<le> x" "x < y" "y \<le> 1"
  shows "positive_or_inf (jacobian J rnd q (Fin x) (Fin y))"
proof -
  let ?A = "js_add rnd (js_sub rnd (req_n q) (req_k q)) (Fin 1)"
  let ?B = "js_add rnd (req_k q) (Fin 1)"
  note mono = M [unfolded monotone_rounding_def, THEN conjunct2, rule_format]
  have one: "rnd 1 = Fin 1"
    using M by (simp add: monotone_rounding_def)
  from rounds_within_sign [OF R e1, of "1 - x"] obtain au where
    au: "rnd (1 - x) = Fin au"
    by blast
  from rounds_within_sign [OF R e1, of "1 - y"] x(3) obtain av where
    av: "rnd (1 - y) = Fin av" "0 \<le> av"
    by auto
  have "1 - y \<le> 1 - x \<and> rnd (1 - y) = Fin av \<and> rnd (1 - x) = Fin au"
    using x(2) av(1) au by simp
  then have le: "av \<le> au" by (rule mono)
  have "1 - x \<le> 1 \<and> rnd (1 - x) = Fin au \<and> rnd 1 = Fin 1"
    using x(1) au one by simp
  then have au1: "au \<le> 1" by (rule mono)
  have "0 \<le> av \<and> av \<le> au \<and> au \<le> 1"
    using av(2) le au1 by simp
  with I obtain bv bu where
    b: "ibeta J (Fin av) ?A ?B = Fin bv" "ibeta J (Fin au) ?A ?B = Fin bu" "bv \<le> bu"
    unfolding ibeta_monotone_def by blast
  from rounds_within_sign [OF R e1, of "y - x"] x(2) obtain d where
    d: "rnd (y - x) = Fin d" "0 < d"
    by auto
  from rounds_within_sign [OF R e1, of "bu - bv"] b(3) obtain e where
    e: "rnd (bu - bv) = Fin e" "0 \<le> e"
    by auto
  have jac: "jacobian J rnd q (Fin x) (Fin y) = js_div rnd (Fin d) (Fin e)"
    by (simp add: jacobian_def Let_def au av(1) b(1,2) d(1) e(1))
  show ?thesis
  proof (cases "e = 0")
    case True
    then show ?thesis
      using d(2) by (simp add: jac positive_or_inf_def)
  next
    case False
    with e(2) d(2) have "0 < d / e" by simp
    with rounds_within_sign [OF R e1, of "d / e"] obtain r where
      "rnd (d / e) = Fin r" "0 < r"
      by auto
    then show ?thesis
      using False by (simp add: jac positive_or_inf_def)
  qed
qed

lemma term_nonneg:
  assumes R: "rounds_within eps rnd" and e1: "eps < 1"
    and f: "\<not> js_lt f (Fin 0)" and d: "positive_or_inf d" and fin: "is_finite (js_mul rnd f d)"
  shows "nonneg (js_mul rnd f d)"
proof (cases f)
  case (Fin a)
  with f have a: "0 \<le> a" by simp
  show ?thesis
  proof (cases d)
    case (Fin r)
    with d have "0 < r" by (simp add: positive_or_inf_def)
    with a have "0 \<le> a * r" by simp
    with rounds_within_sign [OF R e1, of "a * r"] obtain y where
      "rnd (a * r) = Fin y" "0 \<le> y"
      by auto
    then show ?thesis
      by (simp add: \<open>f = Fin a\<close> \<open>d = Fin r\<close> nonneg_def)
  next
    case PInf
    with fin show ?thesis
      by (simp add: \<open>f = Fin a\<close> split: if_splits)
  next
    case NInf
    with d show ?thesis by (simp add: positive_or_inf_def)
  next
    case NaN
    with d show ?thesis by (simp add: positive_or_inf_def)
  qed
next
  case PInf
  with fin d show ?thesis
    by (cases d) (simp_all add: positive_or_inf_def split: if_splits)
next
  case NInf
  with f show ?thesis by simp
next
  case NaN
  with fin show ?thesis by simp
qed

lemma comp_sum_nonneg:
  assumes R: "rounds_within eps rnd" and eps: "eps \<le> 1 / 64"
    and n: "real (length xs) * eps \<le> 1 / 4"
    and fin: "is_finite (spec_comp_sum rnd xs)"
    and nn: "\<forall>x\<in>set xs. is_finite x \<longrightarrow> nonneg x"
  shows "nonneg (spec_comp_sum rnd xs)"
proof -
  from fin obtain t where t: "spec_comp_sum rnd xs = Fin t"
    by (auto simp: is_finite_iff)
  from comp_sum_finite [OF t] obtain rs where rs: "xs = map Fin rs"
    by blast
  have pos: "\<forall>r\<in>set rs. 0 \<le> r"
    using nn by (auto simp: rs nonneg_def)
  have n': "real (length rs) * eps \<le> 1 / 4"
    using n by (simp add: rs)
  from kahan_sum_nonneg [OF R eps n' pos] show ?thesis
    by (auto simp: rs nonneg_def)
qed

lemma raw_density_nonneg:
  assumes R: "rounds_within eps rnd" and M: "monotone_rounding rnd" and eps: "eps \<le> 1 / 64"
    and n: "real (req_N q) * eps \<le> 1 / 4"
    and S: "\<forall>a b s. unit_interval (fst (beta_sample J a b s))"
    and I: "ibeta_monotone J (js_add rnd (js_sub rnd (req_n q) (req_k q)) (Fin 1))
              (js_add rnd (req_k q) (Fin 1))"
    and P: "pdf_not_negative J"
    and L: "sampler_loop J rnd q 0 [] [] [] s = Some (us, vs, duvs, s')"
    and F: "is_finite (spec_raw_density J rnd q us vs duvs j)"
  shows "nonneg (spec_raw_density J rnd q us vs duvs j)"
  unfolding spec_raw_density_def
proof (rule comp_sum_nonneg [OF R eps])
  let ?theta = "js_div rnd (js_of_nat j) (js_of_nat (req_M q))"
  have e1: "eps < 1" using eps by simp
  show "real (length (map (spec_term J rnd q us vs duvs ?theta) [0..<req_N q])) * eps \<le> 1 / 4"
    using n by simp
  show "is_finite (spec_comp_sum rnd (map (spec_term J rnd q us vs duvs ?theta) [0..<req_N q]))"
    using F by (simp add: spec_raw_density_def)
  show "\<forall>x\<in>set (map (spec_term J rnd q us vs duvs ?theta) [0..<req_N q]).
          is_finite x \<longrightarrow> nonneg x"
  proof (clarsimp)
    fix i assume i: "i < req_N q"
      and fin: "is_finite (spec_term J rnd q us vs duvs ?theta i)"
    from retained_pairs [OF S L i] obtain x y where
      xy: "us ! i = Fin x" "vs ! i = Fin y" "0 \<le> x" "x < y" "y \<le> 1"
      by blast
    note sam = sampler_loop_samples [OF L]
    have d: "js_index duvs i = jacobian J rnd q (Fin x) (Fin y)"
      using sam i by (simp add: js_index_def xy(1,2) [symmetric])
    have pos: "positive_or_inf (js_index duvs i)"
      unfolding d by (rule jacobian_positive [OF R e1 M I xy(3-5)])
    have nn: "\<not> js_lt (beta_pdf J p a b) (Fin 0)" for p a b
      using P by (simp add: pdf_not_negative_def)
    show "nonneg (spec_term J rnd q us vs duvs ?theta i)"
      using fin unfolding spec_term_def by (intro term_nonneg [OF R e1] nn pos)
  qed
qed

section \<open>Two random sources with the same draws\<close>

lemma draw_pair_rel:
  assumes "same_draws R J1 J2" and "R s1 s2"
    and "draw_pair J1 rnd q s1 = (u1, v1, t1)" and "draw_pair J2 rnd q s2 = (u2, v2, t2)"
  shows "u1 = u2 \<and> v1 = v2 \<and> R t1 t2"
proof -
  let ?a = "js_add rnd (req_k_u q) (req_a_u q)"
  let ?b = "js_add rnd (js_sub rnd (req_n_u q) (req_k_u q)) (req_b_u q)"
  let ?c = "js_add rnd (req_k_v q) (req_a_v q)"
  let ?d = "js_add rnd (js_sub rnd (req_n_v q) (req_k_v q)) (req_b_v q)"
  note step = assms(1) [unfolded same_draws_def, rule_format]
  have u: "fst (beta_sample J1 ?a ?b s1) = fst (beta_sample J2 ?a ?b s2)"
    and r: "R (snd (beta_sample J1 ?a ?b s1)) (snd (beta_sample J2 ?a ?b s2))"
    using step [OF assms(2)] by simp_all
  have v: "fst (beta_sample J1 ?c ?d (snd (beta_sample J1 ?a ?b s1)))
             = fst (beta_sample J2 ?c ?d (snd (beta_sample J2 ?a ?b s2)))"
    and r': "R (snd (beta_sample J1 ?c ?d (snd (beta_sample J1 ?a ?b s1))))
               (snd (beta_sample J2 ?c ?d (snd (beta_sample J2 ?a ?b s2))))"
    using step [OF r] by simp_all
  show ?thesis
    using assms(3,4) u v r' by (auto simp: draw_pair_def split: prod.splits)
qed

lemma next_state_draw: "draw_pair J rnd q s = (u, v, t) \<Longrightarrow> next_state J rnd q s = t"
  by (simp add: next_state_def)

lemma funpow_next_rel:
  assumes "same_draws R J1 J2" and "R s1 s2"
  shows "R ((next_state J1 rnd q ^^ k) s1) ((next_state J2 rnd q ^^ k) s2)"
proof (induction k)
  case 0
  then show ?case using assms(2) by simp
next
  case (Suc k)
  obtain u1 v1 t1 where d1: "draw_pair J1 rnd q ((next_state J1 rnd q ^^ k) s1) = (u1, v1, t1)"
    by (cases "draw_pair J1 rnd q ((next_state J1 rnd q ^^ k) s1)")
  obtain u2 v2 t2 where d2: "draw_pair J2 rnd q ((next_state J2 rnd q ^^ k) s2) = (u2, v2, t2)"
    by (cases "draw_pair J2 rnd q ((next_state J2 rnd q ^^ k) s2)")
  from draw_pair_rel [OF assms(1) Suc d1 d2] show ?case
    by (simp add: next_state_draw [OF d1] next_state_draw [OF d2])
qed

lemma pair_at_rel:
  assumes "same_draws R J1 J2" and "R s1 s2"
    and "pair_at J1 rnd q s1 k = (u1, v1, t1)" and "pair_at J2 rnd q s2 k = (u2, v2, t2)"
  shows "u1 = u2 \<and> v1 = v2 \<and> R t1 t2"
  using draw_pair_rel [OF assms(1) funpow_next_rel [OF assms(1,2)]] assms(3,4)
  unfolding pair_at_def by blast

lemma exits_rel:
  assumes "same_draws R J1 J2" and "R s1 s2"
  shows "exits (pair_at J1 rnd q s1 k) \<longleftrightarrow> exits (pair_at J2 rnd q s2 k)"
proof -
  obtain u1 v1 t1 where p1: "pair_at J1 rnd q s1 k = (u1, v1, t1)"
    by (cases "pair_at J1 rnd q s1 k")
  obtain u2 v2 t2 where p2: "pair_at J2 rnd q s2 k = (u2, v2, t2)"
    by (cases "pair_at J2 rnd q s2 k")
  from pair_at_rel [OF assms p1 p2] show ?thesis
    by (simp add: p1 p2 exits_def)
qed

lemma rejection_rel:
  assumes "same_draws R J1 J2" and "R s1 s2"
  shows "(rejection J1 rnd q (Fin 0) (Fin 0) s1 = None \<and> rejection J2 rnd q (Fin 0) (Fin 0) s2 = None)
       \<or> (\<exists>u v t1 t2. rejection J1 rnd q (Fin 0) (Fin 0) s1 = Some (u, v, t1)
              \<and> rejection J2 rnd q (Fin 0) (Fin 0) s2 = Some (u, v, t2) \<and> R t1 t2)"
proof (cases "\<exists>k. exits (pair_at J1 rnd q s1 k)")
  case False
  then have "\<forall>k. \<not> exits (pair_at J1 rnd q s1 k)" by simp
  moreover from this have "\<forall>k. \<not> exits (pair_at J2 rnd q s2 k)"
    by (simp add: exits_rel [OF assms, symmetric])
  ultimately show ?thesis
    by (simp add: rejection_None_iff)
next
  case True
  define k where "k = (LEAST k. exits (pair_at J1 rnd q s1 k))"
  have e1: "exits (pair_at J1 rnd q s1 k)"
    unfolding k_def using True by (rule LeastI_ex)
  have l1: "\<forall>i<k. \<not> exits (pair_at J1 rnd q s1 i)"
    unfolding k_def using not_less_Least by blast
  have e2: "exits (pair_at J2 rnd q s2 k)"
    using e1 by (simp add: exits_rel [OF assms])
  have l2: "\<forall>i<k. \<not> exits (pair_at J2 rnd q s2 i)"
    using l1 by (simp add: exits_rel [OF assms])
  obtain u1 v1 t1 where p1: "pair_at J1 rnd q s1 k = (u1, v1, t1)"
    by (cases "pair_at J1 rnd q s1 k")
  obtain u2 v2 t2 where p2: "pair_at J2 rnd q s2 k = (u2, v2, t2)"
    by (cases "pair_at J2 rnd q s2 k")
  have "rejection J1 rnd q (Fin 0) (Fin 0) s1 = Some (u1, v1, t1)"
    using rejection_first_exit [OF js_ge_zero e1 l1] by (simp add: p1)
  moreover have "rejection J2 rnd q (Fin 0) (Fin 0) s2 = Some (u2, v2, t2)"
    using rejection_first_exit [OF js_ge_zero e2 l2] by (simp add: p2)
  ultimately show ?thesis
    using pair_at_rel [OF assms p1 p2] by simp
qed

lemma jacobian_cong: "ibeta J1 = ibeta J2 \<Longrightarrow> jacobian J1 rnd q u v = jacobian J2 rnd q u v"
  by (simp add: jacobian_def)

lemma sampler_loop_rel:
  assumes "same_draws R J1 J2" and "ibeta J1 = ibeta J2"
  shows "R s1 s2 \<Longrightarrow>
    same_samples R (sampler_loop J1 rnd q i us vs duvs s1) (sampler_loop J2 rnd q i us vs duvs s2)"
proof (induction "req_N q - i" arbitrary: i us vs duvs s1 s2)
  case 0
  then have "\<not> i < req_N q" by simp
  then show ?case
    using "0.prems" by (simp add: sampler_loop_exit same_samples_def)
next
  case (Suc d)
  then have lt: "i < req_N q" and d: "d = req_N q - (i + 1)"
    by simp_all
  from rejection_rel [OF assms(1) Suc.prems, of rnd q] show ?case
  proof (elim disjE exE conjE)
    assume "rejection J1 rnd q (Fin 0) (Fin 0) s1 = None"
      and "rejection J2 rnd q (Fin 0) (Fin 0) s2 = None"
    then show ?thesis
      by (simp add: sampler_loop_stuck [OF lt] same_samples_def)
  next
    fix u v t1 t2
    assume r1: "rejection J1 rnd q (Fin 0) (Fin 0) s1 = Some (u, v, t1)"
      and r2: "rejection J2 rnd q (Fin 0) (Fin 0) s2 = Some (u, v, t2)"
      and R: "R t1 t2"
    show ?thesis
      using Suc.hyps(1) [OF d R, of "us @ [u]" "vs @ [v]" "duvs @ [jacobian J1 rnd q u v]"]
      by (simp add: sampler_loop_step [OF lt r1] sampler_loop_step [OF lt r2]
          jacobian_cong [OF assms(2)])
  qed
qed

lemma grid_loop_cong:
  assumes "beta_pdf J1 = beta_pdf J2"
  shows "grid_loop J1 rnd q us vs duvs j pdf total_acc ct
           = grid_loop J2 rnd q us vs duvs j pdf total_acc ct"
proof -
  have "spec_term J1 rnd q us vs duvs = spec_term J2 rnd q us vs duvs"
    by (intro ext) (simp add: spec_term_def assms)
  then have "spec_raw_density J1 rnd q us vs duvs = spec_raw_density J2 rnd q us vs duvs"
    by (intro ext) (simp add: spec_raw_density_def)
  then show ?thesis
    by (simp only: grid_loop_foldl)
qed

section \<open>Evaluating the small instance\<close>

lemma ex_draw_rejected:
  "draw_pair ex_jstat rnd q (4 * c) = (Fin (3/4), Fin (1/4), 4 * c + 2)"
  by (simp add: draw_pair_def ex_jstat_def cyc_sample_def)

lemma ex_draw_retained:
  "draw_pair ex_jstat rnd q (4 * c + 2) = (Fin (1/4), Fin (3/4), 4 * (c + 1))"
  by (simp add: draw_pair_def ex_jstat_def cyc_sample_def mod_Suc)

lemma ex_rejection_any:
  "rejection ex_jstat rnd q (Fin 0) (Fin 0) (4 * c) = Some (Fin (1/4), Fin (3/4), 4 * (c + 1))"
  apply (subst rejection.simps)
  apply (simp only: ex_draw_rejected js_ge.simps if_True prod.case order_refl)
  apply (subst rejection.simps)
  apply (simp only: ex_draw_retained prod.case)
  apply (subst rejection.simps)
  apply simp
  done

lemma sampler_loop_no_samples:
  "req_N q = 0 \<Longrightarrow> sampler_loop J rnd q 0 [] [] [] s = Some ([], [], [], s)"
  by (subst sampler_loop.simps) simp

lemma ex_grid_N0:
  "grid_loop ex_jstat Fin ex_request_N0 [] [] [] 0 [] (Fin 0) (Fin 0)
     = ([Fin 0, Fin 0, Fin 0], Fin 0)"
  by (simp add: grid_loop.simps inner_loop.simps ex_request_N0_def ex_request_def Let_def)

lemma ex_posterior_N0:
  "posterior ex_jstat Fin ex_request_N0 0 = Some ([NaN, NaN, NaN], 0)"
proof -
  have N: "req_N ex_request_N0 = 0" by (simp add: ex_request_N0_def)
  have "normalization Fin ex_request_N0 ([Fin 0, Fin 0, Fin 0], Fin 0) = [NaN, NaN, NaN]"
    by (simp add: normalization_def normalize_loop.simps js_index_def js_store_def
        js_of_nat_def ex_request_N0_def ex_request_def)
  then show ?thesis
    by (simp add: posterior_def sampler_loop_no_samples [OF N] ex_grid_N0)
qed

lemma ex_sampler_one:
  "req_N q = 1 \<Longrightarrow>
   sampler_loop ex_jstat rnd q 0 [] [] [] 0 =
     Some ([Fin (1/4)], [Fin (3/4)], [jacobian ex_jstat rnd q (Fin (1/4)) (Fin (3/4))], 4)"
  using ex_rejection_any [of rnd q 0]
  apply (subst sampler_loop.simps)
  apply simp
  apply (subst sampler_loop.simps)
  apply simp
  done

lemma ex_sampler_two:
  "req_N q = 2 \<Longrightarrow>
   sampler_loop ex_jstat rnd q 0 [] [] [] 0 =
     Some ([Fin (1/4), Fin (1/4)], [Fin (3/4), Fin (3/4)],
           [jacobian ex_jstat rnd q (Fin (1/4)) (Fin (3/4)),
            jacobian ex_jstat rnd q (Fin (1/4)) (Fin (3/4))], 8)"
  using ex_rejection_any [of rnd q 0] ex_rejection_any [of rnd q 1]
  apply (subst sampler_loop.simps)
  apply simp
  apply (subst sampler_loop.simps)
  apply simp
  apply (subst sampler_loop.simps)
  apply simp
  done

lemma ex_jacobian_uniform:
  "jacobian ex_jstat Fin ex_request_uniform_M0 (Fin (1/4)) (Fin (3/4)) = Fin 1"
  by (simp add: jacobian_def ex_jstat_def ex_request_uniform_M0_def ex_request_def ex_ibeta_def)

lemma ex_grid_uniform_M0:
  "grid_loop ex_jstat Fin ex_request_uniform_M0 [Fin (1/4)] [Fin (3/4)] [Fin 1]
     0 [] (Fin 0) (Fin 0) = ([Fin 1], Fin 1)"
  by (simp add: grid_loop.simps inner_loop.simps ex_request_uniform_M0_def ex_request_def
      ex_jstat_def ex_pdf_def js_index_def js_of_nat_def Let_def js_add_NaN_right)

lemma ex_jacobian: "jacobian ex_jstat Fin ex_request (Fin (1/4)) (Fin (3/4)) = Fin 1"
  by (simp add: jacobian_def ex_jstat_def ex_request_def ex_ibeta_def)

lemma ex_sampler:
  "sampler_loop ex_jstat Fin ex_request 0 [] [] [] 0 =
     Some ([Fin (1/4), Fin (1/4)], [Fin (3/4), Fin (3/4)], [Fin 1, Fin 1], 8)"
proof -
  have "req_N ex_request = 2" by (simp add: ex_request_def)
  from ex_sampler_two [OF this, of Fin] show ?thesis by (simp add: ex_jacobian)
qed

lemma ex_grid:
  "grid_loop ex_jstat Fin ex_request [Fin (1/4), Fin (1/4)] [Fin (3/4), Fin (3/4)] [Fin 1, Fin 1]
     0 [] (Fin 0) (Fin 0) = ([Fin 3, Fin 2, Fin 1], Fin 6)"
  by (simp add: grid_loop.simps inner_loop.simps ex_request_def ex_jstat_def ex_pdf_def
      js_index_def js_of_nat_def Let_def)

lemma ex_normalization:
  "normalization Fin ex_request ([Fin 3, Fin 2, Fin 1], Fin 6) = [Fin (3/2), Fin 1, Fin (1/2)]"
  by (simp add: normalization_def normalize_loop.simps
      js_index_def js_store_def js_of_nat_def ex_request_def)

lemma ex_posterior:
  "posterior ex_jstat Fin ex_request 0 = Some ([Fin (3/2), Fin 1, Fin (1/2)], 8)"
  by (simp add: posterior_def ex_sampler ex_grid ex_normalization)

lemma ex_grid_N0_M1:
  "grid_loop ex_jstat Fin ex_request_N0_M1 [] [] [] 0 [] (Fin 0) (Fin 0) = ([Fin 0, Fin 0], Fin 0)"
  by (simp add: grid_loop.simps inner_loop.simps ex_request_N0_M1_def ex_request_def Let_def)

lemma stuck_pair_at: "pair_at stuck_jstat rnd q s k = (Fin (1/2), Fin (1/2), ())"
  by (simp add: pair_at_def draw_pair_def stuck_jstat_def const_sample_def)

lemma ex_unit_interval: "\<forall>a b s. unit_interval (fst (beta_sample ex_jstat a b s))"
  by (simp add: ex_jstat_def cyc_sample_def unit_interval_def)

lemma ex_ibeta_monotone: "ibeta_monotone ex_jstat (Fin 2) (Fin 1)"
proof -
  have "x * x \<le> y * y" if "0 \<le> x" "x \<le> y" for x y :: real
    using that by (intro mult_mono) simp_all
  then show ?thesis
    by (simp add: ibeta_monotone_def ex_jstat_def ex_ibeta_def)
qed

lemma ex_pdf_not_negative: "pdf_not_negative ex_jstat"
  unfolding pdf_not_negative_def
proof (intro allI)
  fix p a b
  show "\<not> js_lt (beta_pdf ex_jstat p a b) (Fin 0)"
    by (cases p) (simp_all add: ex_jstat_def ex_pdf_def)
qed

lemma ex_same_draws: "same_draws (\<lambda>c d. d = c mod 4) ex_jstat mod4_jstat"
  by (simp add: same_draws_def ex_jstat_def mod4_jstat_def cyc_sample_def mod4_sample_def
      mod_Suc_eq)

lemma ex_posterior_M0: "posterior ex_jstat Fin ex_request_M0 0 = Some ([NaN], 8)"
proof -
  have N: "req_N ex_request_M0 = 2" and M: "req_M ex_request_M0 = 0"
    by (simp_all add: ex_request_M0_def ex_request_def)
  have pos: "0 < req_N ex_request_M0" by (simp add: N)
  have p: "beta_pdf ex_jstat NaN (js_add Fin (req_k ex_request_M0) (Fin 1))
             (js_add Fin (js_sub Fin (req_n ex_request_M0) (req_k ex_request_M0)) (Fin 1)) = NaN"
    by (simp add: ex_jstat_def ex_pdf_def ex_request_M0_def ex_request_def)
  have "grid_loop ex_jstat Fin ex_request_M0 us vs duvs 0 [] (Fin 0) (Fin 0) = ([NaN], NaN)"
    for us vs duvs
    by (rule grid_loop_grid_zero [OF M pos p])
  then show ?thesis
    by (simp add: posterior_sampled [OF ex_sampler_two [OF N]] normalization_NaN [OF M])
qed

lemma ex_sampler_two_from:
  "req_N q = 2 \<Longrightarrow>
   sampler_loop ex_jstat rnd q 0 [] [] [] (4 * c) =
     Some ([Fin (1/4), Fin (1/4)], [Fin (3/4), Fin (3/4)],
           [jacobian ex_jstat rnd q (Fin (1/4)) (Fin (3/4)),
            jacobian ex_jstat rnd q (Fin (1/4)) (Fin (3/4))], 4 * c + 8)"
  using ex_rejection_any [of rnd q c] ex_rejection_any [of rnd q "c + 1"]
  apply (subst sampler_loop.simps)
  apply simp
  apply (subst sampler_loop.simps)
  apply simp
  apply (subst sampler_loop.simps)
  apply simp
  done

lemma ex_posterior_second:
  "posterior ex_jstat Fin ex_request 4 = Some ([Fin (3/2), Fin 1, Fin (1/2)], 12)"
proof -
  have "req_N ex_request = 2" by (simp add: ex_request_def)
  from ex_sampler_two_from [OF this, of Fin 1] show ?thesis
    by (simp add: posterior_def ex_jacobian ex_grid ex_normalization)
qed

lemma ex_rnd_within: "rounds_within (1 / 64) ex_rnd"
  unfolding rounds_within_def
proof
  fix x :: real
  show "\<exists>y. ex_rnd x = Fin y \<and> \<bar>y - x\<bar> \<le> 1 / 64 * \<bar>x\<bar>"
  proof (cases "\<bar>x\<bar> \<le> 4")
    case True
    then show ?thesis by (simp add: ex_rnd_def)
  next
    case False
    have "x * (65 / 64) - x = x / 64" by simp
    then have "\<bar>x * (65 / 64) - x\<bar> \<le> 1 / 64 * \<bar>x\<bar>" by simp
    moreover have "ex_rnd x = Fin (x * (65 / 64))"
      using False by (simp add: ex_rnd_def)
    ultimately show ?thesis by blast
  qed
qed

lemma ex_rnd_monotone: "monotone_rounding ex_rnd"
  unfolding monotone_rounding_def
proof (intro conjI allI impI)
  show "ex_rnd 1 = Fin 1" by (simp add: ex_rnd_def)
next
  fix x y a b :: real
  assume "x \<le> y \<and> ex_rnd x = Fin a \<and> ex_rnd y = Fin b"
  then have xy: "x \<le> y"
    and a: "a = (if \<bar>x\<bar> \<le> 4 then x else x * (65 / 64))"
    and b: "b = (if \<bar>y\<bar> \<le> 4 then y else y * (65 / 64))"
    by (simp_all add: ex_rnd_def)
  show "a \<le> b"
    unfolding a b using xy by (simp split: if_splits) linarith
qed

lemma ex_jacobian_rnd: "jacobian ex_jstat ex_rnd ex_request (Fin (1/4)) (Fin (3/4)) = Fin 1"
  by (simp add: jacobian_def ex_jstat_def ex_request_def ex_ibeta_def ex_rnd_def)

lemma ex_sampler_rnd:
  "sampler_loop ex_jstat ex_rnd ex_request 0 [] [] [] 0 =
     Some ([Fin (1/4), Fin (1/4)], [Fin (3/4), Fin (3/4)], [Fin 1, Fin 1], 8)"
proof -
  have "req_N ex_request = 2" by (simp add: ex_request_def)
  from ex_sampler_two [OF this, of ex_rnd] show ?thesis by (simp add: ex_jacobian_rnd)
qed

lemma ex_grid_rnd:
  "grid_loop ex_jstat ex_rnd ex_request [Fin (1/4), Fin (1/4)] [Fin (3/4), Fin (3/4)] [Fin 1, Fin 1]
     0 [] (Fin 0) (Fin 0) = ([Fin 3, Fin 2, Fin 1], Fin (195 / 32))"
  by (simp add: grid_loop.simps inner_loop.simps ex_request_def ex_jstat_def ex_pdf_def
      js_index_def js_of_nat_def Let_def ex_rnd_def)

lemma ex_normalization_rnd:
  "normalization ex_rnd ex_request ([Fin 3, Fin 2, Fin 1], Fin (195 / 32))
     = [Fin (96 / 65), Fin (64 / 65), Fin (32 / 65)]"
  by (simp add: normalization_def normalize_loop.simps
      js_index_def js_store_def js_of_nat_def ex_request_def ex_rnd_def)

lemma ex_posterior_rnd:
  "posterior ex_jstat ex_rnd ex_request 0
     = Some ([Fin (96 / 65), Fin (64 / 65), Fin (32 / 65)], 8)"
  by (simp add: posterior_def ex_sampler_rnd ex_grid_rnd ex_normalization_rnd)

lemma map_Fin_eq: "map Fin xs = map Fin ys \<Longrightarrow> xs = ys"
  using inj_map_eq_map [of Fin xs ys] by (simp add: inj_def)

lemma approx_draw_first: "draw_pair (approx_jstat h) rnd q 0 = (Fin (1/8), Fin (3/8), 2)"
  by (simp add: draw_pair_def approx_jstat_def seq_sample_def)

lemma approx_draw_second: "draw_pair (approx_jstat h) rnd q 2 = (Fin (2/5), Fin (2/5 + h), 4)"
  by (simp add: draw_pair_def approx_jstat_def seq_sample_def)

lemma approx_rejection_first:
  "rejection (approx_jstat h) rnd q (Fin 0) (Fin 0) 0 = Some (Fin (1/8), Fin (3/8), 2)"
  apply (subst rejection.simps)
  apply (simp only: approx_draw_first js_ge.simps if_True prod.case order_refl)
  apply (subst rejection.simps)
  apply simp
  done

lemma approx_rejection_second:
  "0 < h \<Longrightarrow>
   rejection (approx_jstat h) rnd q (Fin 0) (Fin 0) 2 = Some (Fin (2/5), Fin (2/5 + h), 4)"
  apply (subst rejection.simps)
  apply (simp only: approx_draw_second js_ge.simps if_True prod.case order_refl)
  apply (subst rejection.simps)
  apply simp
  done

lemma approx_jacobian_first:
  "jacobian (approx_jstat h) Fin ex_request (Fin (1/8)) (Fin (3/8)) = Fin (2 / 3)"
  by (simp add: jacobian_def approx_jstat_def ex_request_def approx_ibeta_def)

lemma approx_jacobian_second:
  assumes "0 < h" and "h < 2 / 45"
  shows "jacobian (approx_jstat h) Fin ex_request (Fin (2/5)) (Fin (2/5 + h)) = Fin (- (3 / 4))"
proof -
  have d: "9 / 25 - ((3 / 5 - h) * (3 / 5 - h) + h * (38 / 15 - h)) = - (4 / 3) * h"
    by (simp add: algebra_simps)
  have q: "h / (- (4 / 3) * h) = - (3 / 4)"
    using assms(1) by simp
  have "jacobian (approx_jstat h) Fin ex_request (Fin (2/5)) (Fin (2/5 + h))
      = js_div Fin (Fin h)
          (Fin (9 / 25 - ((3 / 5 - h) * (3 / 5 - h) + h * (38 / 15 - h))))"
    using assms by (simp add: jacobian_def approx_jstat_def ex_request_def approx_ibeta_def)
  also have "\<dots> = Fin (- (3 / 4))"
    unfolding d using assms(1) q by simp
  finally show ?thesis .
qed

lemma approx_sampler:
  assumes "0 < h" and "h < 2 / 45"
  shows "sampler_loop (approx_jstat h) Fin ex_request 0 [] [] [] 0 =
     Some ([Fin (1/8), Fin (2/5)], [Fin (3/8), Fin (2/5 + h)], [Fin (2 / 3), Fin (- (3 / 4))], 4)"
proof -
  have N: "req_N ex_request = 2" by (simp add: ex_request_def)
  show ?thesis
    using approx_rejection_first [of h Fin ex_request]
      approx_rejection_second [OF assms(1), of Fin ex_request] N
    apply (subst sampler_loop.simps)
    apply simp
    apply (subst sampler_loop.simps)
    apply simp
    apply (subst sampler_loop.simps)
    apply (simp add: approx_jacobian_first approx_jacobian_second [OF assms])
    done
qed

lemma approx_grid:
  assumes "0 < h" and "h < 2 / 45"
  shows "grid_loop (approx_jstat h) Fin ex_request [Fin (1/8), Fin (2/5)] [Fin (3/8), Fin (2/5 + h)]
     [Fin (2 / 3), Fin (- (3 / 4))] 0 [] (Fin 0) (Fin 0)
   = ([Fin (4 / 15), Fin (1 / 10 + 3 / 4 * h), Fin (3 / 2 * h - 1 / 15)], Fin (3 / 10 + 9 / 4 * h))"
  using assms
  by (simp add: grid_loop.simps inner_loop.simps ex_request_def approx_jstat_def ex_pdf_def
      js_index_def js_of_nat_def Let_def algebra_simps)

lemma normalization_three:
  assumes "req_M q = 2" and "T \<noteq> 0"
  shows "normalization Fin q ([Fin r0, Fin r1, Fin r2], Fin T)
     = [Fin (r0 / (T / 3)), Fin (r1 / (T / 3)), Fin (r2 / (T / 3))]"
  using assms
  by (simp add: normalization_def normalize_loop.simps js_index_def js_store_def js_of_nat_def)

lemma approx_posterior:
  assumes "0 < h" and "h < 2 / 45"
  shows "posterior (approx_jstat h) Fin ex_request 0
     = Some ([Fin (4 / 15 / ((3 / 10 + 9 / 4 * h) / 3)),
              Fin ((1 / 10 + 3 / 4 * h) / ((3 / 10 + 9 / 4 * h) / 3)),
              Fin ((3 / 2 * h - 1 / 15) / ((3 / 10 + 9 / 4 * h) / 3))], 4)"
proof -
  have M: "req_M ex_request = 2" by (simp add: ex_request_def)
  have T: "3 / 10 + 9 / 4 * h \<noteq> 0" using assms(1) by simp
  show ?thesis
    by (simp only: posterior_sampled [OF approx_sampler [OF assms]] approx_grid [OF assms]
        normalization_three [OF M T])
qed

lemma approx_unit_interval:
  assumes "0 \<le> h" and "h \<le> 1 / 2"
  shows "\<forall>a b s. unit_interval (fst (beta_sample (approx_jstat h) a b s))"
  using assms by (simp add: approx_jstat_def seq_sample_def unit_interval_def)

lemma approx_pdf_not_negative: "pdf_not_negative (approx_jstat h)"
  unfolding pdf_not_negative_def
proof (intro allI)
  fix p a b
  show "\<not> js_lt (beta_pdf (approx_jstat h) p a b) (Fin 0)"
    by (cases p) (simp_all add: approx_jstat_def ex_pdf_def)
qed

lemma approx_ibeta_unit:
  assumes "0 \<le> d" and "d \<le> 1 / 2" and "0 \<le> t" and "t \<le> 1"
  shows "unit_interval (approx_ibeta d (Fin t) a b)"
proof (cases "t < 3 / 5")
  case True
  have "t * t \<le> (3 / 5) * (3 / 5)"
    using assms(3) True by (intro mult_mono) simp_all
  then show ?thesis
    using assms True by (simp add: approx_ibeta_def unit_interval_def)
next
  case False
  have "t * t \<le> 1 * 1"
    using assms by (intro mult_mono) simp_all
  then show ?thesis
    using assms False by (simp add: approx_ibeta_def unit_interval_def)
qed

lemma approx_error_small:
  fixes h :: real
  assumes "0 < h" and "h < 2 / 45"
  shows "0 < h * (38 / 15 - h) \<and> h * (38 / 15 - h) < 3 * h"
proof
  show "0 < h * (38 / 15 - h)"
    using assms by (intro mult_pos_pos) simp_all
  have "h * (38 / 15 - h) < h * 3"
    using assms by (intro mult_strict_left_mono) simp_all
  then show "h * (38 / 15 - h) < 3 * h"
    by (simp add: mult.commute)
qed

lemma small_error_negative_entry:
  assumes "0 < h" and "h < 2 / 45"
  shows "\<exists>a b c. posterior (approx_jstat h) Fin ex_request 0 = Some ([Fin a, Fin b, Fin c], 4)
           \<and> c < 0
           \<and> snd (grid_loop (approx_jstat h) Fin ex_request [Fin (1/8), Fin (2/5)]
                    [Fin (3/8), Fin (2/5 + h)] [Fin (2 / 3), Fin (- (3 / 4))] 0 [] (Fin 0) (Fin 0))
               = Fin (3 / 10 + 9 / 4 * h)
           \<and> 0 < 3 / 10 + 9 / 4 * h"
proof -
  have T: "0 < (3 / 10 + 9 / 4 * h) / 3" using assms(1) by simp
  have r: "3 / 2 * h - 1 / 15 < 0" using assms(2) by simp
  have neg: "(3 / 2 * h - 1 / 15) / ((3 / 10 + 9 / 4 * h) / 3) < 0"
    by (rule divide_neg_pos [OF r T])
  have pos: "0 < 3 / 10 + 9 / 4 * h" using assms(1) by simp
  have g: "snd (grid_loop (approx_jstat h) Fin ex_request [Fin (1/8), Fin (2/5)]
                    [Fin (3/8), Fin (2/5 + h)] [Fin (2 / 3), Fin (- (3 / 4))] 0 [] (Fin 0) (Fin 0))
               = Fin (3 / 10 + 9 / 4 * h)"
    by (simp only: approx_grid [OF assms] snd_conv)
  from approx_posterior [OF assms] neg g pos show ?thesis by blast
qed

text \<open>
  The tolerance of the normalisation cannot be the same for raw entries of both signs as
  for raw entries that are not negative. With the second rounding, the raw entries
  \<open>-2\<close>, \<open>-1/8\<close>, \<open>2\<close>, whose sum is \<open>-1/8\<close>, have the compensated
  total \<open>-3/32\<close>: the sum of their absolute values is 44 times the total. The
  normalised entries are \<open>65\<close>, \<open>65/16\<close>, \<open>-64\<close>, and their sum divided
  by 3 is \<open>27/16\<close>.
\<close>

lemma up_rnd_within: "rounds_within (1 / 64) up_rnd"
  unfolding rounds_within_def
proof
  fix x :: real
  show "\<exists>y. up_rnd x = Fin y \<and> \<bar>y - x\<bar> \<le> 1 / 64 * \<bar>x\<bar>"
  proof (cases "0 < x")
    case True
    have "x * (65 / 64) - x = x / 64" by simp
    then have "\<bar>x * (65 / 64) - x\<bar> \<le> 1 / 64 * \<bar>x\<bar>" by simp
    moreover have "up_rnd x = Fin (x * (65 / 64))"
      using True by (simp add: up_rnd_def)
    ultimately show ?thesis by blast
  next
    case False
    then show ?thesis by (simp add: up_rnd_def)
  qed
qed

lemma mixed_signs_total:
  "spec_comp_sum up_rnd [Fin (- 2), Fin (- (1 / 8)), Fin 2] = Fin (- (3 / 32))"
  by (simp add: spec_comp_sum_def spec_comp_add_def up_rnd_def)

lemma mixed_signs_normalization:
  "normalization up_rnd ex_request ([Fin (- 2), Fin (- (1 / 8)), Fin 2], Fin (- (3 / 32)))
     = [Fin 65, Fin (65 / 16), Fin (- 64)]"
  by (simp add: normalization_def normalize_loop.simps
      js_index_def js_store_def js_of_nat_def ex_request_def up_rnd_def)

lemma mixed_signs_off_tolerance:
  "rounds_within (1 / 64) up_rnd
   \<and> spec_comp_sum up_rnd [Fin (- 2), Fin (- (1 / 8)), Fin 2] = Fin (- (3 / 32))
   \<and> normalization up_rnd ex_request ([Fin (- 2), Fin (- (1 / 8)), Fin 2], Fin (- (3 / 32)))
       = [Fin 65, Fin (65 / 16), Fin (- 64)]
   \<and> sum_list (map abs [- 2, - (1 / 8), 2 :: real]) / \<bar>- (3 / 32)\<bar> = 44
   \<and> \<bar>sum_list [65, 65 / 16, - 64] / real (req_M ex_request + 1) - 1\<bar> = 11 / 16
   \<and> 2 * (1 / 64 + (8 * (1 / 64) + 14 * real (req_M ex_request + 1) * (1 / 64)\<^sup>2) * (6 / 5))
       < 11 / 16"
proof -
  have "req_M ex_request = 2" by (simp add: ex_request_def)
  then show ?thesis
    by (simp add: up_rnd_within mixed_signs_total mixed_signs_normalization power2_eq_square)
qed

section \<open>Properties\<close>

text \<open>
  Claim C8. Whatever the number of samples \<open>N\<close> and the grid size \<open>M\<close> (zero
  included), an array returned by \<open>posterior\<close> has exactly \<open>M + 1\<close> entries.
\<close>

theorem posterior_length:
  assumes "posterior J rnd q s = Some (pdf, s')"
  shows "length pdf = req_M q + 1"
proof (cases "sampler_loop J rnd q 0 [] [] [] s")
  case None
  with assms show ?thesis
    by (simp add: posterior_def)
next
  case (Some r)
  obtain us vs duvs s1 where r: "r = (us, vs, duvs, s1)"
    by (cases r)
  from assms have "pdf = normalization rnd q (grid_loop J rnd q us vs duvs 0 [] (Fin 0) (Fin 0))"
    by (simp add: posterior_def Some r)
  then show ?thesis
    by (simp only: length_normalization_grid)
qed

theorem posterior_length_witness:
  "posterior ex_jstat Fin ex_request 0 = Some ([Fin (3/2), Fin 1, Fin (1/2)], 8)
   \<and> length [Fin (3/2), Fin 1, Fin (1/2)] = req_M ex_request + 1"
  using posterior_length [OF ex_posterior] ex_posterior by simp

text \<open>
  Claim C3. Before the normalisation, the entry of \<open>pdf\<close> at grid index \<open>j\<close> is the
  compensated sum, over the samples \<open>i\<close> from \<open>0\<close> to \<open>N - 1\<close>, of the beta density
  at \<open>u_i + (j / M) * (v_i - u_i)\<close> times \<open>duv_i\<close>, not divided by \<open>N\<close>; and the
  running total is the compensated sum of these entries, the compensation term of each
  addition entering the next one.
\<close>

theorem grid_loop_compensated:
  "grid_loop J rnd q us vs duvs 0 [] (Fin 0) (Fin 0) =
     (map (spec_raw_density J rnd q us vs duvs) [0..<req_M q + 1],
      spec_comp_sum rnd (map (spec_raw_density J rnd q us vs duvs) [0..<req_M q + 1]))"
proof -
  have "fst (grid_loop J rnd q us vs duvs 0 [] (Fin 0) (Fin 0))
          = map (spec_raw_density J rnd q us vs duvs) [0..<req_M q + 1]"
    by (simp add: grid_loop_foldl del: upt_Suc)
  moreover have "snd (grid_loop J rnd q us vs duvs 0 [] (Fin 0) (Fin 0))
          = spec_comp_sum rnd (map (spec_raw_density J rnd q us vs duvs) [0..<req_M q + 1])"
    by (simp add: grid_loop_foldl spec_comp_sum_def del: upt_Suc)
  ultimately show ?thesis
    by (simp add: prod_eq_iff)
qed

text \<open>
  Claim C6. When the accumulated total is zero, \<open>posterior\<close> still returns an array
  and no error: the total divided by the length is zero again (the rounding of zero
  being zero), each entry is divided by zero, and every entry of the result is NaN or an
  infinity. The result type has no error value; \<open>None\<close> is a rejection loop that
  never ends.
\<close>

theorem zero_total_not_finite:
  assumes "sampler_loop J rnd q 0 [] [] [] s = Some (us, vs, duvs, s')"
    and "snd (grid_loop J rnd q us vs duvs 0 [] (Fin 0) (Fin 0)) = Fin 0"
    and "rnd 0 = Fin 0"
  shows "\<exists>out. posterior J rnd q s = Some (out, s') \<and> length out = req_M q + 1
           \<and> (\<forall>x\<in>set out. \<not> is_finite x)"
proof -
  let ?g = "grid_loop J rnd q us vs duvs 0 [] (Fin 0) (Fin 0)"
  have avg: "js_div rnd (snd ?g) (js_of_nat (Suc (req_M q))) = Fin 0"
    using assms(2,3) by (simp add: js_of_nat_def)
  have "\<forall>x\<in>set (normalization rnd q ?g). \<not> is_finite x"
    by (simp add: normalization_grid avg js_div_zero_not_finite)
  then show ?thesis
    using posterior_sampled [OF assms(1)] length_normalization_grid by blast
qed

theorem zero_total_not_finite_witness:
  "sampler_loop ex_jstat Fin ex_request_N0_M1 0 [] [] [] 0 = Some ([], [], [], 0)
   \<and> snd (grid_loop ex_jstat Fin ex_request_N0_M1 [] [] [] 0 [] (Fin 0) (Fin 0)) = Fin 0
   \<and> (\<exists>out. posterior ex_jstat Fin ex_request_N0_M1 0 = Some (out, 0)
          \<and> length out = 2 \<and> \<not> is_finite (out ! 0) \<and> \<not> is_finite (out ! 1))"
proof -
  have N: "req_N ex_request_N0_M1 = 0" by (simp add: ex_request_N0_M1_def)
  have M: "req_M ex_request_N0_M1 = 1" by (simp add: ex_request_N0_M1_def)
  have s: "sampler_loop ex_jstat Fin ex_request_N0_M1 0 [] [] [] 0 = Some ([], [], [], 0)"
    by (rule sampler_loop_no_samples [OF N])
  have g: "snd (grid_loop ex_jstat Fin ex_request_N0_M1 [] [] [] 0 [] (Fin 0) (Fin 0)) = Fin 0"
    by (simp add: ex_grid_N0_M1)
  from zero_total_not_finite [OF s g refl] obtain out where
    out: "posterior ex_jstat Fin ex_request_N0_M1 0 = Some (out, 0)" "length out = 2"
      "\<forall>x\<in>set out. \<not> is_finite x"
    by (auto simp: M)
  then have "\<not> is_finite (out ! 0)" "\<not> is_finite (out ! 1)"
    by simp_all
  with s g out show ?thesis by blast
qed

text \<open>
  Claim C1, as it is stated, fails. With no sample the raw entries and the total are all
  zero, and every returned entry is \<open>0 / 0\<close>, which is NaN. With a grid of size zero
  and the density of shape (1,2), \<open>theta\<close> is NaN and so is the single returned entry.
\<close>

theorem normalization_counterexample:
  "posterior ex_jstat Fin ex_request_N0 0 = Some ([NaN, NaN, NaN], 0)
   \<and> js_div Fin (js_sum Fin [NaN, NaN, NaN]) (js_of_nat (req_M ex_request_N0 + 1)) \<noteq> Fin 1
   \<and> posterior ex_jstat Fin ex_request_M0 0 = Some ([NaN], 8)
   \<and> js_div Fin (js_sum Fin [NaN]) (js_of_nat (req_M ex_request_M0 + 1)) \<noteq> Fin 1"
  by (simp add: ex_posterior_N0 ex_posterior_M0 js_sum_def)

text \<open>
  Claim C1, amended. In the standard model of rounding with unit roundoff \<open>eps\<close>,
  \<open>eps \<le> 1/64\<close> and \<open>(M + 1) eps \<le> 1/4\<close>, when the accumulated total is a
  real other than zero, the raw entries are reals, the returned array holds reals, and
  the sum of the returned entries divided by \<open>M + 1\<close> is 1 within
  \<open>2 (eps + (8 eps + 14 (M + 1) eps^2) kappa)\<close>, where \<open>kappa\<close> is the sum of the
  absolute values of the raw entries divided by the absolute value of the total. The same
  quotient computed in the program's arithmetic (the entries added one by one, then the
  division) is 1 within \<open>4 (eps + (8 eps + (M + 1) eps + 14 (M + 1) eps^2) kappa)\<close>.
  When no raw entry is negative, \<open>kappa\<close> is at most 6/5; for doubles and
  \<open>M = 1000\<close> the two bounds are then below \<open>10^-12\<close>.
\<close>

theorem normalization_tolerance:
  assumes R: "rounds_within eps rnd" and eps: "eps \<le> 1 / 64"
    and n: "real (req_M q + 1) * eps \<le> 1 / 4"
    and L: "sampler_loop J rnd q 0 [] [] [] s = Some (us, vs, duvs, s')"
    and T: "snd (grid_loop J rnd q us vs duvs 0 [] (Fin 0) (Fin 0)) = Fin t"
    and t: "t \<noteq> 0"
  shows "\<exists>rs os r. fst (grid_loop J rnd q us vs duvs 0 [] (Fin 0) (Fin 0)) = map Fin rs
           \<and> posterior J rnd q s = Some (map Fin os, s')
           \<and> \<bar>sum_list os / real (req_M q + 1) - 1\<bar>
               \<le> 2 * (eps + (8 * eps + 14 * real (req_M q + 1) * eps\<^sup>2)
                               * (sum_list (map abs rs) / \<bar>t\<bar>))
           \<and> js_div rnd (js_sum rnd (map Fin os)) (js_of_nat (req_M q + 1)) = Fin r
           \<and> \<bar>r - 1\<bar>
               \<le> 4 * (eps + (8 * eps + real (req_M q + 1) * eps + 14 * real (req_M q + 1) * eps\<^sup>2)
                               * (sum_list (map abs rs) / \<bar>t\<bar>))
           \<and> ((\<forall>x\<in>set rs. 0 \<le> x) \<longrightarrow> sum_list (map abs rs) / \<bar>t\<bar> \<le> 6 / 5)"
proof -
  let ?g = "grid_loop J rnd q us vs duvs 0 [] (Fin 0) (Fin 0)"
  define m where "m = real (req_M q + 1)"
  define kap where "kap = 7 * eps + 14 * m * eps\<^sup>2"
  note e0 = rounds_within_nonneg [OF R]
  have m0: "0 < m" by (simp add: m_def)
  have me: "m * eps \<le> 1 / 4" using n by (simp add: m_def)
  have t0: "0 < \<bar>t\<bar>" using t by simp
  have sum: "spec_comp_sum rnd (fst ?g) = Fin t"
    using T by (simp add: grid_loop_foldl spec_comp_sum_def del: upt_Suc)
  have len: "length (fst ?g) = req_M q + 1"
    by (simp add: grid_loop_foldl del: upt_Suc)
  from comp_sum_finite [OF sum] obtain rs where rs: "fst ?g = map Fin rs"
    by blast
  define A where "A = sum_list (map abs rs)"
  define kappa where "kappa = A / \<bar>t\<bar>"
  have A0: "0 \<le> A"
    unfolding A_def by (rule sum_list_abs_ge0)
  have kappa0: "0 \<le> kappa"
    using A0 t0 by (simp add: kappa_def)
  have lrs: "real (length rs) = m"
    using len by (simp add: rs m_def)
  have n': "real (length rs) * eps \<le> 1 / 4"
    using me by (simp add: lrs)
  from kahan_sum_error [OF R eps n'] obtain t' where
    "spec_comp_sum rnd (map Fin rs) = Fin t'"
    "\<bar>t' - sum_list rs\<bar> \<le> (7 * eps + 14 * real (length rs) * eps\<^sup>2) * sum_list (map abs rs)"
    by blast
  then have terr: "\<bar>t - sum_list rs\<bar> \<le> kap * A"
    using sum by (simp add: rs kap_def lrs A_def)
  have kap: "0 \<le> kap" "kap \<le> 1 / 6"
    using kahan_constants [OF e0 eps _ me] m0 e0 by (simp_all add: kap_def)
  obtain c where c: "rnd (t / m) = Fin c" "\<bar>c - t / m\<bar> \<le> eps * \<bar>t / m\<bar>"
    using rounds_withinD [OF R] by blast
  have tm: "0 < \<bar>t / m\<bar>" using t m0 by simp
  have "eps * \<bar>t / m\<bar> \<le> (1 / 64) * \<bar>t / m\<bar>"
    using eps tm by (intro mult_right_mono) simp_all
  with c(2) tm have c0: "c \<noteq> 0" by linarith
  have "c * m - t = (c - t / m) * m"
    using m0 by (simp add: field_simps)
  then have "\<bar>c * m - t\<bar> = \<bar>c - t / m\<bar> * m"
    using m0 by (simp add: abs_mult)
  also have "\<dots> \<le> (eps * \<bar>t / m\<bar>) * m"
    using c(2) m0 by (intro mult_right_mono) simp_all
  also have "\<dots> = eps * \<bar>t\<bar>"
    using m0 by (simp add: abs_divide)
  finally have cm: "\<bar>c * m - t\<bar> \<le> eps * \<bar>t\<bar>" .
  have avg: "js_div rnd (snd ?g) (js_of_nat (req_M q + 1)) = Fin c"
    using m0 c(1) by (simp add: T js_of_nat_def m_def)
  from normalized_entries_abs [OF R c0, of rs] obtain os where
    os: "map (\<lambda>x. js_div rnd x (Fin c)) (map Fin rs) = map Fin os" "length os = length rs"
      "\<bar>sum_list os * c - sum_list rs\<bar> \<le> eps * A"
      "sum_list (map abs os) * \<bar>c\<bar> \<le> (1 + eps) * A"
    unfolding A_def by blast
  have "normalization rnd q ?g = map (\<lambda>x. js_div rnd x (Fin c)) (fst ?g)"
    by (simp only: normalization_grid avg)
  then have out: "normalization rnd q ?g = map Fin os"
    by (simp only: rs os(1))
  have post: "posterior J rnd q s = Some (map Fin os, s')"
    by (simp only: posterior_sampled [OF L] out)
  define X where "X = (8 * eps + 14 * m * eps\<^sup>2) * kappa"
  define Y where "Y = m * eps * kappa"
  have X0: "0 \<le> X"
    using e0 m0 kappa0 by (simp add: X_def)
  have Y0: "0 \<le> Y"
    using e0 m0 kappa0 by (simp add: Y_def)
  have "\<bar>sum_list os / m - 1\<bar> \<le> 2 * (eps + (eps + kap) * (A / \<bar>t\<bar>))"
    by (rule ratio_tolerance_abs [OF e0 eps kap(1) m0 t A0 terr cm os(3)])
  also have "eps + kap = 8 * eps + 14 * m * eps\<^sup>2"
    by (simp add: kap_def)
  finally have exact: "\<bar>sum_list os / m - 1\<bar> \<le> 2 * (eps + X)"
    by (simp add: X_def kappa_def)
  have los: "real (length os) = m"
    using os(2) lrs by simp
  from plain_sum_error_abs [OF R, of os] me obtain p where
    p: "js_sum rnd (map Fin os) = Fin p"
      "\<bar>p - sum_list os\<bar> \<le> 2 * m * eps * sum_list (map abs os)"
    by (auto simp: los js_sum_def)
  obtain r where r: "rnd (p / m) = Fin r" "\<bar>r - p / m\<bar> \<le> eps * \<bar>p / m\<bar>"
    using rounds_withinD [OF R] by blast
  have quot: "js_div rnd (js_sum rnd (map Fin os)) (js_of_nat (req_M q + 1)) = Fin r"
    using m0 r(1) by (simp add: p(1) js_of_nat_def m_def)
  have Ao: "sum_list (map abs os) \<le> (21 / 20) * m * kappa"
    unfolding kappa_def
    by (rule entries_size [OF e0 eps m0 t A0 sum_list_abs_ge0 cm os(4)])
  have "p / m - sum_list os / m = (p - sum_list os) / m"
    by (simp add: diff_divide_distrib)
  then have "\<bar>p / m - sum_list os / m\<bar> = \<bar>p - sum_list os\<bar> / m"
    using m0 by (simp add: abs_divide)
  also have "\<dots> \<le> (2 * m * eps * sum_list (map abs os)) / m"
    using p(2) m0 by (intro divide_right_mono) simp_all
  also have "\<dots> = 2 * eps * sum_list (map abs os)"
    using m0 by simp
  also have "\<dots> \<le> 2 * eps * ((21 / 20) * m * kappa)"
    using Ao e0 by (intro mult_left_mono) simp_all
  also have "\<dots> = (21 / 10) * Y"
    by (simp add: Y_def)
  finally have pb: "\<bar>p / m - sum_list os / m\<bar> \<le> (21 / 10) * Y" .
  from computed_ratio_abs [OF e0 eps exact pb r(2)]
  have "\<bar>r - 1\<bar> \<le> eps + (65 / 64) * (2 * (eps + X) + (21 / 10) * Y)" .
  also have "\<dots> \<le> 4 * (eps + (X + Y))"
    using X0 Y0 e0 by (simp add: algebra_simps)
  finally have "\<bar>r - 1\<bar> \<le> 4 * (eps + (X + Y))" .
  also have "X + Y = (8 * eps + m * eps + 14 * m * eps\<^sup>2) * kappa"
    by (simp add: X_def Y_def algebra_simps)
  finally have computed: "\<bar>r - 1\<bar> \<le> 4 * (eps + (8 * eps + m * eps + 14 * m * eps\<^sup>2) * kappa)" .
  have special: "kappa \<le> 6 / 5" if pos: "\<forall>x\<in>set rs. 0 \<le> x"
  proof -
    have abs_rs: "A = sum_list rs"
      unfolding A_def by (rule sum_list_abs_nonneg [OF pos])
    from kahan_sum_nonneg [OF R eps n' pos] sum have "0 \<le> t"
      by (simp add: rs)
    with t have tpos: "0 < t" by simp
    have "kap * A \<le> (1 / 6) * A"
      using kap(2) A0 by (intro mult_right_mono)
    with terr have "A \<le> (6 / 5) * t"
      unfolding abs_rs by linarith
    then have "A / t \<le> 6 / 5"
      using tpos by (simp add: pos_divide_le_eq)
    then show ?thesis
      using tpos by (simp add: kappa_def)
  qed
  show ?thesis
    using rs post exact quot computed special unfolding X_def kappa_def A_def m_def by blast
qed

theorem normalization_tolerance_witness:
  "rounds_within (1 / 64) ex_rnd
   \<and> sampler_loop ex_jstat ex_rnd ex_request 0 [] [] [] 0 =
       Some ([Fin (1/4), Fin (1/4)], [Fin (3/4), Fin (3/4)], [Fin 1, Fin 1], 8)
   \<and> grid_loop ex_jstat ex_rnd ex_request [Fin (1/4), Fin (1/4)] [Fin (3/4), Fin (3/4)]
       [Fin 1, Fin 1] 0 [] (Fin 0) (Fin 0) = ([Fin 3, Fin 2, Fin 1], Fin (195 / 32))
   \<and> posterior ex_jstat ex_rnd ex_request 0
       = Some ([Fin (96 / 65), Fin (64 / 65), Fin (32 / 65)], 8)
   \<and> \<bar>sum_list [96 / 65, 64 / 65, 32 / 65] / real (req_M ex_request + 1) - 1\<bar>
       \<le> 2 * (1 / 64 + (8 * (1 / 64) + 14 * real (req_M ex_request + 1) * (1 / 64)\<^sup>2)
                          * (sum_list (map abs [3, 2, 1]) / \<bar>195 / 32\<bar>))
   \<and> (\<exists>r. js_div ex_rnd (js_sum ex_rnd [Fin (96 / 65), Fin (64 / 65), Fin (32 / 65)])
              (js_of_nat (req_M ex_request + 1)) = Fin r
          \<and> \<bar>r - 1\<bar> \<le> 4 * (1 / 64 + (8 * (1 / 64) + real (req_M ex_request + 1) * (1 / 64)
                                  + 14 * real (req_M ex_request + 1) * (1 / 64)\<^sup>2)
                               * (sum_list (map abs [3, 2, 1]) / \<bar>195 / 32\<bar>)))
   \<and> sum_list (map abs [3, 2, 1]) / \<bar>195 / 32 :: real\<bar> \<le> 6 / 5"
proof -
  let ?g = "grid_loop ex_jstat ex_rnd ex_request [Fin (1/4), Fin (1/4)] [Fin (3/4), Fin (3/4)]
       [Fin 1, Fin 1] 0 [] (Fin 0) (Fin 0)"
  have e: "(1 / 64 :: real) \<le> 1 / 64" by simp
  have n: "real (req_M ex_request + 1) * (1 / 64) \<le> 1 / 4"
    by (simp add: ex_request_def)
  have T: "snd ?g = Fin (195 / 32)"
    by (simp add: ex_grid_rnd)
  have t: "(195 / 32 :: real) \<noteq> 0" by simp
  from normalization_tolerance [OF ex_rnd_within e n ex_sampler_rnd T t]
  obtain rs os r where
    rs: "fst ?g = map Fin rs"
    and os: "posterior ex_jstat ex_rnd ex_request 0 = Some (map Fin os, 8)"
    and exact: "\<bar>sum_list os / real (req_M ex_request + 1) - 1\<bar>
         \<le> 2 * (1 / 64 + (8 * (1 / 64) + 14 * real (req_M ex_request + 1) * (1 / 64)\<^sup>2)
                            * (sum_list (map abs rs) / \<bar>195 / 32\<bar>))"
    and quot: "js_div ex_rnd (js_sum ex_rnd (map Fin os)) (js_of_nat (req_M ex_request + 1)) = Fin r"
    and computed: "\<bar>r - 1\<bar> \<le> 4 * (1 / 64 + (8 * (1 / 64) + real (req_M ex_request + 1) * (1 / 64)
                                  + 14 * real (req_M ex_request + 1) * (1 / 64)\<^sup>2)
                               * (sum_list (map abs rs) / \<bar>195 / 32\<bar>))"
    and special: "(\<forall>x\<in>set rs. 0 \<le> x) \<longrightarrow> sum_list (map abs rs) / \<bar>195 / 32\<bar> \<le> 6 / 5"
    by blast
  from rs have "map Fin rs = map Fin [3, 2, 1]"
    by (simp add: ex_grid_rnd)
  then have rs_eq: "rs = [3, 2, 1]"
    by (rule map_Fin_eq)
  from os have "map Fin os = map Fin [96 / 65, 64 / 65, 32 / 65]"
    by (simp add: ex_posterior_rnd)
  then have os_eq: "os = [96 / 65, 64 / 65, 32 / 65]"
    by (rule map_Fin_eq)
  have pos: "\<forall>x\<in>set rs. 0 \<le> x"
    by (simp add: rs_eq)
  have m: "map Fin [96 / 65, 64 / 65, 32 / 65 :: real] = [Fin (96 / 65), Fin (64 / 65), Fin (32 / 65)]"
    by simp
  from special pos have sp: "sum_list (map abs rs) / \<bar>195 / 32\<bar> \<le> 6 / 5"
    by blast
  from exact quot computed sp ex_rnd_within ex_sampler_rnd ex_grid_rnd ex_posterior_rnd
  show ?thesis
    unfolding os_eq rs_eq m by blast
qed

text \<open>
  Claim C10, as it is stated, fails: \<open>theta = 0 / 0\<close> is NaN, but for the uniform
  shape the density answers 1 at NaN, and the single entry returned is finite.
\<close>

theorem grid_zero_counterexample:
  "req_M ex_request_uniform_M0 = 0
   \<and> js_div Fin (js_of_nat 0) (js_of_nat (req_M ex_request_uniform_M0)) = NaN
   \<and> posterior ex_jstat Fin ex_request_uniform_M0 0 = Some ([Fin 1], 4)
   \<and> is_finite (Fin 1)"
proof -
  have N: "req_N ex_request_uniform_M0 = 1" and M: "req_M ex_request_uniform_M0 = 0"
    by (simp_all add: ex_request_uniform_M0_def)
  have "normalization Fin ex_request_uniform_M0 ([Fin 1], Fin 1) = [Fin 1]"
    by (simp add: normalization_def normalize_loop.simps js_index_def js_store_def
        js_of_nat_def M)
  then have "posterior ex_jstat Fin ex_request_uniform_M0 0 = Some ([Fin 1], 4)"
    by (simp add: posterior_def ex_sampler_one [OF N] ex_jacobian_uniform ex_grid_uniform_M0)
  then show ?thesis
    by (simp add: M js_of_nat_def)
qed

text \<open>
  Claim C10, amended. With \<open>M = 0\<close> the single grid value \<open>theta = 0 / 0\<close> is NaN.
  When there is at least one sample and the beta density of the request's shape is NaN
  at NaN, the array returned is the single entry NaN, whatever the rounding.
\<close>

theorem grid_zero_nan:
  assumes "req_M q = 0" and "0 < req_N q"
    and "beta_pdf J NaN (js_add rnd (req_k q) (Fin 1))
           (js_add rnd (js_sub rnd (req_n q) (req_k q)) (Fin 1)) = NaN"
    and "sampler_loop J rnd q 0 [] [] [] s = Some (us, vs, duvs, s')"
  shows "js_div rnd (js_of_nat 0) (js_of_nat (req_M q)) = NaN
         \<and> posterior J rnd q s = Some ([NaN], s')"
proof
  show "js_div rnd (js_of_nat 0) (js_of_nat (req_M q)) = NaN"
    by (simp add: assms(1) js_of_nat_def)
next
  have "grid_loop J rnd q us vs duvs 0 [] (Fin 0) (Fin 0) = ([NaN], NaN)"
    by (rule grid_loop_grid_zero [OF assms(1-3)])
  then have "normalization rnd q (grid_loop J rnd q us vs duvs 0 [] (Fin 0) (Fin 0)) = [NaN]"
    by (simp add: normalization_NaN [OF assms(1)])
  then show "posterior J rnd q s = Some ([NaN], s')"
    by (simp add: posterior_sampled [OF assms(4)])
qed

theorem grid_zero_nan_witness:
  "req_M ex_request_M0 = 0 \<and> 0 < req_N ex_request_M0
   \<and> js_div Fin (js_of_nat 0) (js_of_nat (req_M ex_request_M0)) = NaN
   \<and> posterior ex_jstat Fin ex_request_M0 0 = Some ([NaN], 8)"
proof -
  have N: "req_N ex_request_M0 = 2" and M: "req_M ex_request_M0 = 0"
    by (simp_all add: ex_request_M0_def ex_request_def)
  have pos: "0 < req_N ex_request_M0" by (simp add: N)
  have p: "beta_pdf ex_jstat NaN (js_add Fin (req_k ex_request_M0) (Fin 1))
             (js_add Fin (js_sub Fin (req_n ex_request_M0) (req_k ex_request_M0)) (Fin 1)) = NaN"
    by (simp add: ex_jstat_def ex_pdf_def ex_request_M0_def ex_request_def)
  show ?thesis
    using grid_zero_nan [OF M pos p ex_sampler_two [OF N]] M pos by simp
qed

text \<open>
  Claim C2. When the sampler honours its interface (every draw is a real of the unit
  interval), every retained pair satisfies \<open>0 \<le> u < v \<le> 1\<close>: the arrays
  \<open>us\<close> and \<open>vs\<close> have \<open>N\<close> entries and \<open>us[i] < vs[i]\<close> at every index.
\<close>

theorem retained_samples_ordered:
  assumes "\<forall>a b s. unit_interval (fst (beta_sample J a b s))"
    and "sampler_loop J rnd q 0 [] [] [] s = Some (us, vs, duvs, s')"
  shows "length us = req_N q \<and> length vs = req_N q
    \<and> (\<forall>i<req_N q. \<exists>x y. us ! i = Fin x \<and> vs ! i = Fin y \<and> 0 \<le> x \<and> x < y \<and> y \<le> 1)"
proof (intro conjI allI impI)
  show "length us = req_N q" and "length vs = req_N q"
    using sampler_loop_samples [OF assms(2)] by simp_all
next
  fix i assume "i < req_N q"
  then show "\<exists>x y. us ! i = Fin x \<and> vs ! i = Fin y \<and> 0 \<le> x \<and> x < y \<and> y \<le> 1"
    by (rule retained_pairs [OF assms])
qed

theorem retained_samples_ordered_witness:
  "sampler_loop ex_jstat Fin ex_request 0 [] [] [] 0 =
     Some ([Fin (1/4), Fin (1/4)], [Fin (3/4), Fin (3/4)], [Fin 1, Fin 1], 8)
   \<and> (\<exists>x y. [Fin (1/4), Fin (1/4)] ! 1 = Fin x \<and> [Fin (3/4), Fin (3/4)] ! 1 = Fin y
          \<and> 0 \<le> x \<and> x < y \<and> y \<le> 1)"
proof -
  have "(1::nat) < req_N ex_request"
    by (simp add: ex_request_def)
  with retained_samples_ordered [OF ex_unit_interval ex_sampler] ex_sampler show ?thesis
    by blast
qed

text \<open>
  Claim C7. The rejection loop has no bound on its iterations. With a sampler that never
  draws NaN, \<open>posterior\<close> returns exactly when the stream of pairs drawn from the
  random source holds at least \<open>N\<close> pairs with \<open>u < v\<close>, one to end the loop of each
  sample, however far apart they are; otherwise it runs forever. There is no other
  outcome: no retry limit and no failure value.
\<close>

theorem posterior_returns_iff:
  assumes "\<forall>a b s. fst (beta_sample J a b s) \<noteq> NaN"
  shows "(\<exists>r. posterior J rnd q s = Some r) \<longleftrightarrow>
         (\<exists>m. req_N q \<le> count_upto (\<lambda>k. ordered (pair_at J rnd q s k)) m)"
proof -
  have "(\<exists>r. posterior J rnd q s = Some r) \<longleftrightarrow> sampler_loop J rnd q 0 [] [] [] s \<noteq> None"
    using posterior_None [of J rnd q s] by auto
  also have "\<dots> \<longleftrightarrow> (\<exists>m. req_N q - 0 \<le> count_upto (\<lambda>k. exits (pair_at J rnd q s k)) m)"
    by (rule sampler_loop_Some_iff)
  finally show ?thesis
    by (simp add: exits_iff_ordered [OF assms])
qed

theorem posterior_returns_iff_witness:
  "(\<exists>r. posterior ex_jstat Fin ex_request 0 = Some r)
   \<and> (\<exists>m. req_N ex_request \<le> count_upto (\<lambda>k. ordered (pair_at ex_jstat Fin ex_request 0 k)) m)
   \<and> posterior stuck_jstat Fin ex_request () = None
   \<and> (\<nexists>m. req_N ex_request \<le> count_upto (\<lambda>k. ordered (pair_at stuck_jstat Fin ex_request () k)) m)"
proof -
  have c: "\<forall>a b s. fst (beta_sample ex_jstat a b s) \<noteq> NaN"
    by (simp add: ex_jstat_def cyc_sample_def)
  have r: "\<exists>r. posterior ex_jstat Fin ex_request 0 = Some r"
    by (simp add: ex_posterior)
  have c': "\<forall>a b s. fst (beta_sample stuck_jstat a b s) \<noteq> NaN"
    by (simp add: stuck_jstat_def const_sample_def)
  have "count_upto (\<lambda>k. ordered (pair_at stuck_jstat Fin ex_request () k)) m = 0" for m
    by (simp add: stuck_pair_at ordered_def count_upto_none)
  then have n: "\<nexists>m. req_N ex_request \<le> count_upto (\<lambda>k. ordered (pair_at stuck_jstat Fin ex_request () k)) m"
    by (simp add: ex_request_def)
  from n posterior_returns_iff [OF c', of Fin ex_request "()"]
  have "posterior stuck_jstat Fin ex_request () = None"
    by (cases "posterior stuck_jstat Fin ex_request ()") auto
  with r n posterior_returns_iff [OF c, of Fin ex_request 0] show ?thesis
    by blast
qed

text \<open>
  Claim C4. For every retained sample the factor stored in \<open>duvs\<close> is
  \<open>(v - u) / (Bu - Bv)\<close>, with \<open>Bu\<close> and \<open>Bv\<close> the incomplete beta function at
  \<open>1 - u\<close> and \<open>1 - v\<close> with shapes \<open>n - k + 1\<close>, \<open>k + 1\<close>. When the library's
  function has the symmetry \<open>I_x(a,b) = 1 - I_{1-x}(b,a)\<close> and the sampler honours
  its interface, this is, in exact arithmetic, the direct form
  \<open>(v - u) / (I_v(k+1, n-k+1) - I_u(k+1, n-k+1))\<close>.
\<close>

theorem jacobian_symmetry:
  assumes "\<forall>a b s. unit_interval (fst (beta_sample J a b s))"
    and "ibeta_symmetric J (js_add Fin (js_sub Fin (req_n q) (req_k q)) (Fin 1))
           (js_add Fin (req_k q) (Fin 1))"
    and "sampler_loop J Fin q 0 [] [] [] s = Some (us, vs, duvs, s')"
  shows "\<forall>i<req_N q. duvs ! i = jacobian J Fin q (us ! i) (vs ! i)
           \<and> jacobian J Fin q (us ! i) (vs ! i) = spec_direct_jacobian J q (us ! i) (vs ! i)"
proof (intro allI impI)
  fix i assume i: "i < req_N q"
  from retained_pairs [OF assms(1,3) i] obtain x y where
    xy: "us ! i = Fin x" "vs ! i = Fin y" "0 \<le> x" "x < y" "y \<le> 1"
    by blast
  have "duvs ! i = jacobian J Fin q (us ! i) (vs ! i)"
    using sampler_loop_samples [OF assms(3)] i by blast
  moreover have "jacobian J Fin q (us ! i) (vs ! i) = spec_direct_jacobian J q (us ! i) (vs ! i)"
    unfolding xy(1,2) using xy(3-5) by (intro jacobian_direct [OF assms(2)]) simp_all
  ultimately show "duvs ! i = jacobian J Fin q (us ! i) (vs ! i)
           \<and> jacobian J Fin q (us ! i) (vs ! i) = spec_direct_jacobian J q (us ! i) (vs ! i)"
    by simp
qed

theorem jacobian_symmetry_witness:
  "sampler_loop ex_jstat Fin ex_request 0 [] [] [] 0 =
     Some ([Fin (1/4), Fin (1/4)], [Fin (3/4), Fin (3/4)], [Fin 1, Fin 1], 8)
   \<and> [Fin 1, Fin 1] ! 0 = jacobian ex_jstat Fin ex_request (Fin (1/4)) (Fin (3/4))
   \<and> jacobian ex_jstat Fin ex_request (Fin (1/4)) (Fin (3/4))
       = spec_direct_jacobian ex_jstat ex_request (Fin (1/4)) (Fin (3/4))
   \<and> spec_direct_jacobian ex_jstat ex_request (Fin (1/4)) (Fin (3/4)) = Fin 1"
proof -
  have sym: "ibeta_symmetric ex_jstat
      (js_add Fin (js_sub Fin (req_n ex_request) (req_k ex_request)) (Fin 1))
      (js_add Fin (req_k ex_request) (Fin 1))"
    by (simp add: ibeta_symmetric_def ex_jstat_def ex_request_def ex_ibeta_def)
  have "(0::nat) < req_N ex_request"
    by (simp add: ex_request_def)
  with jacobian_symmetry [OF ex_unit_interval sym ex_sampler]
  have "[Fin 1, Fin 1] ! 0 = jacobian ex_jstat Fin ex_request ([Fin (1/4), Fin (1/4)] ! 0) ([Fin (3/4), Fin (3/4)] ! 0)
      \<and> jacobian ex_jstat Fin ex_request ([Fin (1/4), Fin (1/4)] ! 0) ([Fin (3/4), Fin (3/4)] ! 0)
        = spec_direct_jacobian ex_jstat ex_request ([Fin (1/4), Fin (1/4)] ! 0) ([Fin (3/4), Fin (3/4)] ! 0)"
    by blast
  then show ?thesis
    using ex_sampler by simp
qed

text \<open>
  Claim C5, as it is stated, fails. The code divides \<open>v - u\<close> by \<open>Bu - Bv\<close>
  whatever the sign of that difference is. In the member \<open>h = 1/32\<close> of the family of
  libraries above, the computed incomplete beta function is too large by 1201/15360 below
  3/5 and so is not monotone: the second retained pair, \<open>u = 2/5 < v = 69/160\<close>, has
  \<open>Bu - Bv = -1/24\<close> and the factor \<open>-3/4\<close>. The total, \<open>237/640\<close>, is finite
  and positive, and the last entry of the returned array is \<open>-38/237\<close>. The rest of
  the interface is honoured: the draws and the values of the incomplete beta function lie
  in the unit interval and the density is never negative (lemmas
  \<open>approx_unit_interval\<close>, \<open>approx_ibeta_unit\<close>, \<open>approx_pdf_not_negative\<close>).
  The size of the error does not matter: by lemma \<open>small_error_negative_entry\<close> the
  last entry is negative and the total is positive for every \<open>0 < h < 2/45\<close>, that is
  for errors as small as one likes, the second pair being \<open>2/5 < 2/5 + h\<close>.
\<close>

theorem negative_entry_counterexample:
  "sampler_loop (approx_jstat (1 / 32)) Fin ex_request 0 [] [] [] 0 =
     Some ([Fin (1/8), Fin (2/5)], [Fin (3/8), Fin (69/160)], [Fin (2 / 3), Fin (- (3 / 4))], 4)
   \<and> snd (grid_loop (approx_jstat (1 / 32)) Fin ex_request [Fin (1/8), Fin (2/5)]
            [Fin (3/8), Fin (69/160)] [Fin (2 / 3), Fin (- (3 / 4))] 0 [] (Fin 0) (Fin 0))
       = Fin (237 / 640)
   \<and> posterior (approx_jstat (1 / 32)) Fin ex_request 0
       = Some ([Fin (512 / 237), Fin 1, Fin (- (38 / 237))], 4)
   \<and> js_lt (Fin (- (38 / 237))) (Fin 0)
   \<and> \<not> nonneg (Fin (- (38 / 237)))"
proof -
  have h: "(0::real) < 1 / 32" "(1 / 32 :: real) < 2 / 45" by simp_all
  have v: "(2 / 5 + 1 / 32 :: real) = 69 / 160" by simp
  note s = approx_sampler [OF h, unfolded v]
  note g = approx_grid [OF h, unfolded v]
  note p = approx_posterior [OF h]
  show ?thesis
    using s g p by (simp add: nonneg_def)
qed

text \<open>
  Claim C5, amended. In the standard model of rounding with a monotone rounding, for a
  sampler that honours its interface, an incomplete beta function whose computed values
  do not decrease on the unit interval and a density that is never negative, a finite
  positive total makes every entry of the returned array a non-negative real. Each
  retained pair has \<open>v - u > 0\<close> and \<open>Bu - Bv \<ge> 0\<close>; a zero difference makes
  the factor infinite and the total infinite or NaN; so each factor is positive, each
  term is non-negative, and so are the compensated sums of at most \<open>1 / (4 eps)\<close>
  terms and their quotients by the positive mean.
\<close>

theorem posterior_nonneg:
  assumes R: "rounds_within eps rnd" and M: "monotone_rounding rnd" and eps: "eps \<le> 1 / 64"
    and n: "real (req_N q) * eps \<le> 1 / 4"
    and S: "\<forall>a b s. unit_interval (fst (beta_sample J a b s))"
    and I: "ibeta_monotone J (js_add rnd (js_sub rnd (req_n q) (req_k q)) (Fin 1))
           (js_add rnd (req_k q) (Fin 1))"
    and P: "pdf_not_negative J"
    and L: "sampler_loop J rnd q 0 [] [] [] s = Some (us, vs, duvs, s')"
    and T: "snd (grid_loop J rnd q us vs duvs 0 [] (Fin 0) (Fin 0)) = Fin t"
    and t: "0 < t"
  shows "\<exists>out. posterior J rnd q s = Some (out, s') \<and> (\<forall>x\<in>set out. nonneg x)"
proof -
  let ?g = "grid_loop J rnd q us vs duvs 0 [] (Fin 0) (Fin 0)"
  define m where "m = real (req_M q + 1)"
  have e1: "eps \<le> 1" and e1': "eps < 1" using eps by simp_all
  have m0: "0 < m" by (simp add: m_def)
  have raw: "fst ?g = map (spec_raw_density J rnd q us vs duvs) [0..<Suc (req_M q)]"
    by (simp add: grid_loop_foldl del: upt_Suc)
  have "spec_comp_sum rnd (fst ?g) = Fin t"
    using T by (simp add: grid_loop_foldl spec_comp_sum_def del: upt_Suc)
  from comp_sum_finite [OF this] obtain rs where rs: "fst ?g = map Fin rs"
    by blast
  have entries: "nonneg x" if "x \<in> set (fst ?g)" for x
  proof -
    from that obtain j where j: "x = spec_raw_density J rnd q us vs duvs j"
      unfolding raw by auto
    from that have "is_finite x"
      unfolding rs by auto
    then show ?thesis
      unfolding j by (rule raw_density_nonneg [OF R M eps n S I P L])
  qed
  have pos: "\<forall>r\<in>set rs. 0 \<le> r"
  proof
    fix r assume "r \<in> set rs"
    then have "Fin r \<in> set (fst ?g)"
      by (simp add: rs)
    from entries [OF this] show "0 \<le> r"
      by (simp add: nonneg_def)
  qed
  have tm: "0 < t / m" using t m0 by simp
  from rounds_within_sign [OF R e1', of "t / m"] tm obtain c where
    c: "rnd (t / m) = Fin c" "0 < c"
    by auto
  have avg: "js_div rnd (snd ?g) (js_of_nat (req_M q + 1)) = Fin c"
    using m0 c(1) by (simp add: T js_of_nat_def m_def)
  from normalized_entries [OF R e1 c(2) pos] obtain os where
    os: "map (\<lambda>x. js_div rnd x (Fin c)) (map Fin rs) = map Fin os" "\<forall>y\<in>set os. 0 \<le> y"
    by blast
  have "normalization rnd q ?g = map (\<lambda>x. js_div rnd x (Fin c)) (fst ?g)"
    by (simp only: normalization_grid avg)
  then have out: "normalization rnd q ?g = map Fin os"
    by (simp only: rs os(1))
  have "\<forall>x\<in>set (map Fin os). nonneg x"
    using os(2) by (simp add: nonneg_def)
  then show ?thesis
    using posterior_sampled [OF L] out by simp
qed

theorem posterior_nonneg_witness:
  "rounds_within (1 / 64) ex_rnd \<and> monotone_rounding ex_rnd
   \<and> sampler_loop ex_jstat ex_rnd ex_request 0 [] [] [] 0 =
       Some ([Fin (1/4), Fin (1/4)], [Fin (3/4), Fin (3/4)], [Fin 1, Fin 1], 8)
   \<and> snd (grid_loop ex_jstat ex_rnd ex_request [Fin (1/4), Fin (1/4)] [Fin (3/4), Fin (3/4)]
            [Fin 1, Fin 1] 0 [] (Fin 0) (Fin 0)) = Fin (195 / 32)
   \<and> posterior ex_jstat ex_rnd ex_request 0
       = Some ([Fin (96 / 65), Fin (64 / 65), Fin (32 / 65)], 8)
   \<and> nonneg (Fin (96 / 65)) \<and> nonneg (Fin (64 / 65)) \<and> nonneg (Fin (32 / 65))"
proof -
  have e: "(1 / 64 :: real) \<le> 1 / 64" by simp
  have n: "real (req_N ex_request) * (1 / 64) \<le> 1 / 4"
    by (simp add: ex_request_def)
  have mono: "ibeta_monotone ex_jstat
      (js_add ex_rnd (js_sub ex_rnd (req_n ex_request) (req_k ex_request)) (Fin 1))
      (js_add ex_rnd (req_k ex_request) (Fin 1))"
    using ex_ibeta_monotone by (simp add: ex_request_def ex_rnd_def)
  have g: "snd (grid_loop ex_jstat ex_rnd ex_request [Fin (1/4), Fin (1/4)] [Fin (3/4), Fin (3/4)]
            [Fin 1, Fin 1] 0 [] (Fin 0) (Fin 0)) = Fin (195 / 32)"
    by (simp add: ex_grid_rnd)
  have pos: "(0::real) < 195 / 32" by simp
  from posterior_nonneg [OF ex_rnd_within ex_rnd_monotone e n ex_unit_interval mono
      ex_pdf_not_negative ex_sampler_rnd g pos]
  have "\<forall>x\<in>set [Fin (96 / 65), Fin (64 / 65), Fin (32 / 65)]. nonneg x"
    by (simp add: ex_posterior_rnd)
  then show ?thesis
    using ex_rnd_within ex_rnd_monotone ex_sampler_rnd g ex_posterior_rnd by simp
qed

text \<open>
  Claim C9. The array returned depends on the random source only through the values it
  draws: two calls with the same request, the same library functions and random sources
  that yield the same stream of draws (whatever their internal states are) return the
  same array, or both run forever. In particular two calls from the same state of the
  same source return the same array.
\<close>

theorem posterior_same_draws:
  assumes "same_draws R J1 J2" and "ibeta J1 = ibeta J2" and "beta_pdf J1 = beta_pdf J2"
    and "R s1 s2"
  shows "map_option fst (posterior J1 rnd q s1) = map_option fst (posterior J2 rnd q s2)"
proof -
  have same: "same_samples R (sampler_loop J1 rnd q 0 [] [] [] s1)
                (sampler_loop J2 rnd q 0 [] [] [] s2)"
    by (rule sampler_loop_rel [OF assms(1,2,4)])
  show ?thesis
  proof (cases "sampler_loop J1 rnd q 0 [] [] [] s1")
    case None
    with same have "sampler_loop J2 rnd q 0 [] [] [] s2 = None"
      by (simp add: same_samples_def)
    with None show ?thesis
      by (simp add: posterior_def)
  next
    case (Some r)
    obtain us vs duvs t1 where r: "r = (us, vs, duvs, t1)"
      by (cases r)
    from same Some r obtain t2 where
      "sampler_loop J2 rnd q 0 [] [] [] s2 = Some (us, vs, duvs, t2)"
      by (auto simp: same_samples_def split: option.splits)
    with Some r show ?thesis
      by (simp add: posterior_def grid_loop_cong [OF assms(3)])
  qed
qed

theorem posterior_same_draws_witness:
  "same_draws (\<lambda>c d. d = c mod 4) ex_jstat mod4_jstat
   \<and> ibeta ex_jstat = ibeta mod4_jstat \<and> beta_pdf ex_jstat = beta_pdf mod4_jstat
   \<and> posterior ex_jstat Fin ex_request 4 = Some ([Fin (3/2), Fin 1, Fin (1/2)], 12)
   \<and> map_option fst (posterior mod4_jstat Fin ex_request 0) = Some [Fin (3/2), Fin 1, Fin (1/2)]"
proof -
  have i: "ibeta ex_jstat = ibeta mod4_jstat" and p: "beta_pdf ex_jstat = beta_pdf mod4_jstat"
    by (simp_all add: ex_jstat_def mod4_jstat_def)
  have r: "(0::nat) = 4 mod 4" by simp
  from posterior_same_draws [OF ex_same_draws i p r, of Fin ex_request]
  have "map_option fst (posterior mod4_jstat Fin ex_request 0) = Some [Fin (3/2), Fin 1, Fin (1/2)]"
    by (simp add: ex_posterior_second)
  with ex_same_draws i p ex_posterior_second show ?thesis
    by simp
qed

end

